theory Spec2Isabelle
  imports Main "HOL-Library.Word" "HOL-Library.Monad_Syntax"
begin

section \<open>The doubly linked list of \<^verbatim>\<open>src/list.c\<close>\<close>

text \<open>
  The library keeps a chain of \<^verbatim>\<open>list_element_t\<close> nodes between the \<^verbatim>\<open>first\<close> and
  \<^verbatim>\<open>last\<close> pointers of a \<^verbatim>\<open>list_t\<close>. The model below follows the C text function by
  function.

  \<^item> A pointer is a 64-bit word and \<^verbatim>\<open>NULL\<close> is the word 0; \<^verbatim>\<open>size_t\<close> is a 64-bit word,
    so \<^verbatim>\<open>count++\<close> and \<^verbatim>\<open>count--\<close> wrap as they do in C.
  \<^item> The heap is split by type: \<open>nodes\<close> holds the live \<^verbatim>\<open>list_element_t\<close> objects,
    \<open>blocks\<close> the other live blocks handed out by \<^verbatim>\<open>malloc\<close> (with their sizes), and
    \<open>bytes\<close> the contents of payload memory. A write to a node never changes payload
    bytes, nor the other way round.
  \<^item> Every operation returns an \<open>option\<close>. \<open>None\<close> stands for a call that does not
    return normally: a failed \<^verbatim>\<open>assert\<close> (the list pointer itself is always valid here, so
    the only assertion left is the one on the payload argument), an access through \<^verbatim>\<open>NULL\<close> or through a pointer
    to a node that is not live, a \<^verbatim>\<open>free\<close> of a block that is not live, or a loop that
    never ends. A normal return is \<open>Some (r, L)\<close>: the C return value and the state
    after the call.
  \<^item> The answers of \<^verbatim>\<open>malloc\<close> are inputs of the model: each \<^verbatim>\<open>list_add*\<close> call takes the
    pair of addresses that the allocator proposes for the node and for the payload copy.
  \<^item> The semaphore is left out: the model is the sequential behaviour of one call at a
    time, which is what \<^verbatim>\<open>sem_wait\<close>/\<^verbatim>\<open>sem_post\<close> around every body enforce.
\<close>

subsection \<open>Data\<close>

type_synonym ptr = "64 word"
type_synonym size_t = "64 word"
type_synonym byte = "8 word"

abbreviation NULL :: ptr where
  "NULL \<equiv> 0"

text \<open>
  \<^verbatim>\<open>struct list_element_s { prev; next; e; }\<close>. The field \<^verbatim>\<open>e\<close> is called \<open>elem\<close> here,
  so that \<open>e\<close> stays free as the name of the argument of the calls.
\<close>

record list_element =
  prev :: ptr
  "next" :: ptr
  elem :: ptr

record memory =
  nodes :: "ptr \<rightharpoonup> list_element"
  blocks :: "ptr \<rightharpoonup> size_t"
  bytes :: "ptr \<Rightarrow> byte"

text \<open>
  \<^verbatim>\<open>struct list_s { first; last; curr; count; alloc; sort; sem; }\<close>, together with the
  memory it points into. \<^verbatim>\<open>last\<close> is \<open>last_p\<close> and \<^verbatim>\<open>sort\<close> is \<open>sort_fn\<close> (both names
  are taken by list functions of HOL). The callback receives the list it is called
  from: everything of the state but the callback itself. It is a function: it reads the
  state and its two arguments and changes nothing (the library calls it with the
  semaphore taken, so it cannot call back into the list).
\<close>

record list_state = memory +
  first :: ptr
  last_p :: ptr
  curr :: ptr
  count :: size_t
  alloc :: bool

type_synonym sort_t = "list_state \<Rightarrow> ptr \<Rightarrow> ptr \<Rightarrow> bool"

record list_t = list_state +
  sort_fn :: "sort_t option"

subsection \<open>Memory primitives\<close>

text \<open>
  \<^verbatim>\<open>malloc\<close> either fails or returns the address of a block that was not live. \<open>r\<close> is
  the allocator's proposal; a proposal that is \<^verbatim>\<open>NULL\<close> or names a live block is a failed
  allocation.
\<close>

definition fresh :: "'a memory_scheme \<Rightarrow> ptr \<Rightarrow> bool" where
  "fresh m p \<longleftrightarrow> p \<noteq> NULL \<and> p \<notin> dom (nodes m) \<and> p \<notin> dom (blocks m)"

definition malloc :: "'a memory_scheme \<Rightarrow> ptr \<Rightarrow> ptr" where
  "malloc m r = (if fresh m r then r else NULL)"

text \<open>\<^verbatim>\<open>memcpy(dst, src, n)\<close> on the byte memory.\<close>

definition memcpy :: "(ptr \<Rightarrow> byte) \<Rightarrow> ptr \<Rightarrow> ptr \<Rightarrow> size_t \<Rightarrow> (ptr \<Rightarrow> byte)" where
  "memcpy mem dst src n = (\<lambda>a. if a - dst < n then mem (src + (a - dst)) else mem a)"

text \<open>Reading \<^verbatim>\<open>*p\<close> for a node pointer \<open>p\<close>.\<close>

definition deref :: "'a memory_scheme \<Rightarrow> ptr \<Rightarrow> list_element option" where
  "deref m p = (if p = NULL then None else nodes m p)"

text \<open>Reading the fields \<^verbatim>\<open>p->prev\<close>, \<^verbatim>\<open>p->next\<close> and \<^verbatim>\<open>p->e\<close>.\<close>

definition get_prev :: "'a memory_scheme \<Rightarrow> ptr \<Rightarrow> ptr option" where
  "get_prev m p = map_option prev (deref m p)"

definition get_next :: "'a memory_scheme \<Rightarrow> ptr \<Rightarrow> ptr option" where
  "get_next m p = map_option next (deref m p)"

definition get_elem :: "'a memory_scheme \<Rightarrow> ptr \<Rightarrow> ptr option" where
  "get_elem m p = map_option elem (deref m p)"

text \<open>The assignments \<^verbatim>\<open>p->prev = v\<close>, \<^verbatim>\<open>p->next = v\<close> and \<^verbatim>\<open>p->e = v\<close>.\<close>

definition set_prev :: "ptr \<Rightarrow> ptr \<Rightarrow> 'a memory_scheme \<Rightarrow> 'a memory_scheme option" where
  "set_prev p v m = do {
     n \<leftarrow> deref m p;
     Some (m\<lparr>nodes := (nodes m)(p \<mapsto> n\<lparr>prev := v\<rparr>)\<rparr>)
   }"

definition set_next :: "ptr \<Rightarrow> ptr \<Rightarrow> 'a memory_scheme \<Rightarrow> 'a memory_scheme option" where
  "set_next p v m = do {
     n \<leftarrow> deref m p;
     Some (m\<lparr>nodes := (nodes m)(p \<mapsto> n\<lparr>next := v\<rparr>)\<rparr>)
   }"

definition set_elem :: "ptr \<Rightarrow> ptr \<Rightarrow> 'a memory_scheme \<Rightarrow> 'a memory_scheme option" where
  "set_elem p v m = do {
     n \<leftarrow> deref m p;
     Some (m\<lparr>nodes := (nodes m)(p \<mapsto> n\<lparr>elem := v\<rparr>)\<rparr>)
   }"

text \<open>
  \<^verbatim>\<open>free\<close> of a node and of a payload block: nothing happens on \<^verbatim>\<open>NULL\<close>, a live block
  stops being live, anything else is not defined.
\<close>

definition free_node :: "ptr \<Rightarrow> 'a memory_scheme \<Rightarrow> 'a memory_scheme option" where
  "free_node p m =
     (if p = NULL then Some m
      else if p \<in> dom (nodes m) then Some (m\<lparr>nodes := (nodes m)(p := None)\<rparr>)
      else None)"

definition free_block :: "ptr \<Rightarrow> 'a memory_scheme \<Rightarrow> 'a memory_scheme option" where
  "free_block p m =
     (if p = NULL then Some m
      else if p \<in> dom (blocks m) then Some (m\<lparr>blocks := (blocks m)(p := None)\<rparr>)
      else None)"

text \<open>\<^verbatim>\<open>assert(b)\<close>: the call goes on when \<open>b\<close> holds and is aborted otherwise.\<close>

definition c_assert :: "bool \<Rightarrow> unit option" where
  "c_assert b = (if b then Some () else None)"

subsection \<open>Creation\<close>

text \<open>
  \<^verbatim>\<open>list_create(alloc, sort)\<close> in memory \<open>m\<close>; \<open>r\<close> is what \<^verbatim>\<open>malloc\<close> proposes for the
  \<^verbatim>\<open>list_t\<close>. The result \<open>None\<close> is the \<^verbatim>\<open>NULL\<close> the function returns when the allocation
  fails; otherwise the structure is zeroed by \<^verbatim>\<open>memset\<close> and the two arguments are saved.
\<close>

definition list_create :: "memory \<Rightarrow> bool \<Rightarrow> sort_t option \<Rightarrow> ptr \<Rightarrow> list_t option" where
  "list_create m a s r =
     (if malloc m r = NULL then None
      else Some \<lparr>nodes = nodes m, blocks = blocks m, bytes = bytes m,
                 first = NULL, last_p = NULL, curr = NULL, count = 0,
                 alloc = a, sort_fn = s\<rparr>)"

text \<open>
  \<^verbatim>\<open>list_create_element(list, e, size)\<close>: the node is allocated and zeroed; in owning
  mode the payload is copied into a block of its own, and a failure of that second
  allocation frees the node again. The result is the node pointer (\<^verbatim>\<open>NULL\<close> on failure)
  and the memory after the call.
\<close>

definition list_create_element :: "list_t \<Rightarrow> ptr \<Rightarrow> size_t \<Rightarrow> ptr \<times> ptr \<Rightarrow> (ptr \<times> list_t) option" where
  "list_create_element L e sz r = do {
     c_assert (e \<noteq> NULL);
     let list_element = malloc L (fst r);
     if list_element = NULL then Some (NULL, L)
     else do {
       let L1 = L\<lparr>nodes := (nodes L)(list_element \<mapsto> \<lparr>prev = NULL, next = NULL, elem = NULL\<rparr>)\<rparr>;
       if alloc L1 then do {
         let b = malloc L1 (snd r);
         L2 \<leftarrow> set_elem list_element b L1;
         if b = NULL then do {
           L3 \<leftarrow> free_node list_element L2;
           Some (NULL, L3)
         } else
           Some (list_element,
                 L2\<lparr>blocks := (blocks L2)(b \<mapsto> sz), bytes := memcpy (bytes L2) b e sz\<rparr>)
       } else do {
         L2 \<leftarrow> set_elem list_element e L1;
         Some (list_element, L2)
       }
     }
   }"

subsection \<open>Insertion\<close>

text \<open>
  The body of \<^verbatim>\<open>while (NULL != tmp)\<close> in \<^verbatim>\<open>list_add\<close>, with the code that follows the loop:
  the new node goes before the first node on which the callback answers false
  (\<^verbatim>\<open>goto ADDED\<close>), and after \<^verbatim>\<open>last\<close> when the walk reaches \<^verbatim>\<open>NULL\<close>. The callback is
  called with the payload of the node visited and with the argument \<^verbatim>\<open>e\<close> of the call.
\<close>

partial_function (option) list_add_loop :: "sort_t \<Rightarrow> list_t \<Rightarrow> ptr \<Rightarrow> ptr \<Rightarrow> ptr \<Rightarrow> list_t option" where
  "list_add_loop f L list_element e tmp =
     (if tmp \<noteq> NULL then do {
        tmp_e \<leftarrow> get_elem L tmp;
        if \<not> f (list_state.truncate L) tmp_e e then do {
          tmp_prev \<leftarrow> get_prev L tmp;
          L1 \<leftarrow> (if tmp_prev = NULL then Some (L\<lparr>first := list_element\<rparr>)
                 else do {
                   L' \<leftarrow> set_next tmp_prev list_element L;
                   tmp_prev' \<leftarrow> get_prev L' tmp;
                   set_prev list_element tmp_prev' L'
                 });
          L2 \<leftarrow> set_next list_element tmp L1;
          set_prev tmp list_element L2
        } else do {
          tmp_next \<leftarrow> get_next L tmp;
          list_add_loop f L list_element e tmp_next
        }
      } else do {
        L1 \<leftarrow> set_next (last_p L) list_element L;
        L2 \<leftarrow> set_prev list_element (last_p L1) L1;
        Some (L2\<lparr>last_p := list_element\<rparr>)
      })"

declare list_add_loop.simps [code]

text \<open>\<^verbatim>\<open>list_add(list, e, size)\<close>; the result is 0, or -1 when no node could be created.\<close>

definition list_add :: "list_t \<Rightarrow> ptr \<Rightarrow> size_t \<Rightarrow> ptr \<times> ptr \<Rightarrow> (int \<times> list_t) option" where
  "list_add L e sz r = do {
     c_assert (e \<noteq> NULL);
     (list_element, L0) \<leftarrow> list_create_element L e sz r;
     if list_element = NULL then Some (- 1, L0)
     else do {
       L3 \<leftarrow> (if first L0 = NULL then
                 Some (L0\<lparr>last_p := list_element, first := list_element, curr := list_element\<rparr>)
               else (case sort_fn L0 of
                  Some f \<Rightarrow> list_add_loop f L0 list_element e (first L0)
                | None \<Rightarrow> do {
                    L1 \<leftarrow> set_next (last_p L0) list_element L0;
                    L2 \<leftarrow> set_prev list_element (last_p L1) L1;
                    Some (L2\<lparr>last_p := list_element\<rparr>)
                  }));
       Some (0, L3\<lparr>count := count L3 + 1\<rparr>)
     }
   }"

text \<open>\<^verbatim>\<open>list_add_head(list, e, size)\<close>.\<close>

definition list_add_head :: "list_t \<Rightarrow> ptr \<Rightarrow> size_t \<Rightarrow> ptr \<times> ptr \<Rightarrow> (int \<times> list_t) option" where
  "list_add_head L e sz r = do {
     c_assert (e \<noteq> NULL);
     (list_element, L0) \<leftarrow> list_create_element L e sz r;
     if list_element = NULL then Some (- 1, L0)
     else do {
       L3 \<leftarrow> (if first L0 = NULL then
                 Some (L0\<lparr>first := list_element, last_p := list_element, curr := list_element\<rparr>)
               else do {
                 L1 \<leftarrow> set_prev (first L0) list_element L0;
                 L2 \<leftarrow> set_next list_element (first L1) L1;
                 Some (L2\<lparr>first := list_element\<rparr>)
               });
       Some (0, L3\<lparr>count := count L3 + 1\<rparr>)
     }
   }"

text \<open>\<^verbatim>\<open>list_add_tail(list, e, size)\<close>.\<close>

definition list_add_tail :: "list_t \<Rightarrow> ptr \<Rightarrow> size_t \<Rightarrow> ptr \<times> ptr \<Rightarrow> (int \<times> list_t) option" where
  "list_add_tail L e sz r = do {
     c_assert (e \<noteq> NULL);
     (list_element, L0) \<leftarrow> list_create_element L e sz r;
     if list_element = NULL then Some (- 1, L0)
     else do {
       L3 \<leftarrow> (if last_p L0 = NULL then
                 Some (L0\<lparr>last_p := list_element, first := list_element, curr := list_element\<rparr>)
               else do {
                 L1 \<leftarrow> set_next (last_p L0) list_element L0;
                 L2 \<leftarrow> set_prev list_element (last_p L1) L1;
                 Some (L2\<lparr>last_p := list_element\<rparr>)
               });
       Some (0, L3\<lparr>count := count L3 + 1\<rparr>)
     }
   }"

subsection \<open>Queries and the cursor\<close>

definition list_get_count :: "list_t \<Rightarrow> (size_t \<times> list_t) option" where
  "list_get_count L = Some (count L, L)"

text \<open>The common tail of the four cursor functions: the payload under the cursor, if any.\<close>

definition get_element :: "list_t \<Rightarrow> (ptr \<times> list_t) option" where
  "get_element L =
     (if curr L \<noteq> NULL then do { e \<leftarrow> get_elem L (curr L); Some (e, L) }
      else Some (NULL, L))"

definition list_get_head :: "list_t \<Rightarrow> (ptr \<times> list_t) option" where
  "list_get_head L = get_element (L\<lparr>curr := first L\<rparr>)"

definition list_get_tail :: "list_t \<Rightarrow> (ptr \<times> list_t) option" where
  "list_get_tail L = get_element (L\<lparr>curr := last_p L\<rparr>)"

definition list_get_next :: "list_t \<Rightarrow> (ptr \<times> list_t) option" where
  "list_get_next L = do {
     L1 \<leftarrow> (if curr L \<noteq> NULL then do { c \<leftarrow> get_next L (curr L); Some (L\<lparr>curr := c\<rparr>) }
             else Some L);
     get_element L1
   }"

definition list_get_prev :: "list_t \<Rightarrow> (ptr \<times> list_t) option" where
  "list_get_prev L = do {
     L1 \<leftarrow> (if curr L \<noteq> NULL then do { c \<leftarrow> get_prev L (curr L); Some (L\<lparr>curr := c\<rparr>) }
             else Some L);
     get_element L1
   }"

subsection \<open>Removal\<close>

text \<open>The search loop of \<^verbatim>\<open>list_remove\<close>: the first node whose payload pointer is \<open>e\<close>.\<close>

partial_function (option) list_remove_search :: "list_t \<Rightarrow> ptr \<Rightarrow> ptr \<Rightarrow> ptr option" where
  "list_remove_search L e tmp =
     (if tmp \<noteq> NULL then do {
        tmp_e \<leftarrow> get_elem L tmp;
        if tmp_e = e then Some tmp
        else do {
          tmp_next \<leftarrow> get_next L tmp;
          list_remove_search L e tmp_next
        }
      } else Some tmp)"

declare list_remove_search.simps [code]

text \<open>
  \<^verbatim>\<open>list_remove(list, e)\<close>. The value returned is \<^verbatim>\<open>ret = tmp->next\<close>, read before the
  node is freed.
\<close>

definition list_remove :: "list_t \<Rightarrow> ptr \<Rightarrow> (ptr \<times> list_t) option" where
  "list_remove L e = do {
     tmp \<leftarrow> list_remove_search L e (first L);
     if tmp = NULL then Some (NULL, L)
     else do {
       L1 \<leftarrow> (if tmp = first L then do { nx \<leftarrow> get_next L tmp; Some (L\<lparr>first := nx\<rparr>) }
               else Some L);
       L2 \<leftarrow> (if tmp = last_p L1 then do { pv \<leftarrow> get_prev L1 tmp; Some (L1\<lparr>last_p := pv\<rparr>) }
               else Some L1);
       L3 \<leftarrow> (if tmp = curr L2 then do { pv \<leftarrow> get_prev L2 tmp; Some (L2\<lparr>curr := pv\<rparr>) }
               else Some L2);
       L4 \<leftarrow> do {
               pv \<leftarrow> get_prev L3 tmp;
               if pv \<noteq> NULL then do { nx \<leftarrow> get_next L3 tmp; set_next pv nx L3 }
               else Some L3
             };
       L5 \<leftarrow> do {
               nx \<leftarrow> get_next L4 tmp;
               if nx \<noteq> NULL then do { pv \<leftarrow> get_prev L4 tmp; set_prev nx pv L4 }
               else Some L4
             };
       let L6 = L5\<lparr>count := count L5 - 1\<rparr>;
       ret \<leftarrow> get_next L6 tmp;
       L7 \<leftarrow> do {
               tmp_e \<leftarrow> get_elem L6 tmp;
               if alloc L6 \<and> tmp_e \<noteq> NULL then free_block tmp_e L6 else Some L6
             };
       L8 \<leftarrow> free_node tmp L7;
       Some (ret, L8)
     }
   }"

text \<open>\<^verbatim>\<open>list_remove_head(list)\<close>: only the node is freed, the payload is returned.\<close>

definition list_remove_head :: "list_t \<Rightarrow> (ptr \<times> list_t) option" where
  "list_remove_head L = do {
     L1 \<leftarrow> (if curr L \<noteq> NULL \<and> curr L = first L then do {
               nx \<leftarrow> get_next L (first L);
               Some (L\<lparr>curr := nx\<rparr>)
             } else Some L);
     e \<leftarrow> (if first L1 \<noteq> NULL then get_elem L1 (first L1) else Some NULL);
     L5 \<leftarrow> (if first L1 \<noteq> NULL then do {
               let tmp = first L1;
               nx \<leftarrow> get_next L1 (first L1);
               L3 \<leftarrow> (if nx \<noteq> NULL then do {
                         L2 \<leftarrow> set_prev nx NULL L1;
                         nx' \<leftarrow> get_next L2 (first L2);
                         Some (L2\<lparr>first := nx'\<rparr>)
                       } else Some (L1\<lparr>last_p := NULL, first := NULL\<rparr>));
               let L4 = L3\<lparr>count := count L3 - 1\<rparr>;
               free_node tmp L4
             } else Some L1);
     Some (e, L5)
   }"

text \<open>\<^verbatim>\<open>list_remove_tail(list)\<close>, the mirror image.\<close>

definition list_remove_tail :: "list_t \<Rightarrow> (ptr \<times> list_t) option" where
  "list_remove_tail L = do {
     L1 \<leftarrow> (if curr L \<noteq> NULL \<and> curr L = last_p L then do {
               pv \<leftarrow> get_prev L (last_p L);
               Some (L\<lparr>curr := pv\<rparr>)
             } else Some L);
     e \<leftarrow> (if last_p L1 \<noteq> NULL then get_elem L1 (last_p L1) else Some NULL);
     L5 \<leftarrow> (if last_p L1 \<noteq> NULL then do {
               let tmp = last_p L1;
               pv \<leftarrow> get_prev L1 (last_p L1);
               L3 \<leftarrow> (if pv \<noteq> NULL then do {
                         L2 \<leftarrow> set_next pv NULL L1;
                         pv' \<leftarrow> get_prev L2 (last_p L2);
                         Some (L2\<lparr>last_p := pv'\<rparr>)
                       } else Some (L1\<lparr>last_p := NULL, first := NULL\<rparr>));
               let L4 = L3\<lparr>count := count L3 - 1\<rparr>;
               free_node tmp L4
             } else Some L1);
     Some (e, L5)
   }"

section \<open>Well-formed lists\<close>

text \<open>
  The chain as the list of its nodes: \<open>dlseg h pr p ns q\<close> holds when following \<open>next\<close>
  from \<open>p\<close> visits exactly the nodes of \<open>ns\<close> and ends in \<open>q\<close>, every node points back
  to the one before it (the first one to \<open>pr\<close>), and each pair of \<open>ns\<close> is a node with
  the payload pointer stored in it.
\<close>

fun dlseg :: "(ptr \<rightharpoonup> list_element) \<Rightarrow> ptr \<Rightarrow> ptr \<Rightarrow> (ptr \<times> ptr) list \<Rightarrow> ptr \<Rightarrow> bool" where
  "dlseg h pr p [] q \<longleftrightarrow> p = q"
| "dlseg h pr p ((a, x) # as) q \<longleftrightarrow>
     p = a \<and> a \<noteq> NULL \<and>
     (case h a of None \<Rightarrow> False
      | Some n \<Rightarrow> prev n = pr \<and> elem n = x \<and> dlseg h a (next n) as q)"

text \<open>
  What the list functions rely on about the pairs: the nodes are pairwise different, no
  payload pointer is \<^verbatim>\<open>NULL\<close> (the \<^verbatim>\<open>assert\<close> of the insertions), and in owning mode every
  payload is a live block of its own.
\<close>

definition wf_items :: "bool \<Rightarrow> (ptr \<rightharpoonup> size_t) \<Rightarrow> (ptr \<times> ptr) list \<Rightarrow> bool" where
  "wf_items own bl ns \<longleftrightarrow>
     distinct (map fst ns) \<and> NULL \<notin> snd ` set ns \<and>
     (own \<longrightarrow> distinct (map snd ns) \<and> snd ` set ns \<subseteq> dom bl)"

text \<open>
  \<open>wf_list L ns\<close>: the state \<open>L\<close> holds the chain \<open>ns\<close> from \<open>first\<close> to \<open>last_p\<close>, ended by
  \<^verbatim>\<open>NULL\<close> on both sides, \<open>count\<close> is its length, and the cursor is \<^verbatim>\<open>NULL\<close> or one of its
  nodes.
\<close>

definition wf_list :: "list_t \<Rightarrow> (ptr \<times> ptr) list \<Rightarrow> bool" where
  "wf_list L ns \<longleftrightarrow>
     dlseg (nodes L) NULL (first L) ns NULL \<and>
     last_p L = (if ns = [] then NULL else fst (last ns)) \<and>
     unat (count L) = length ns \<and>
     (curr L = NULL \<or> curr L \<in> fst ` set ns) \<and>
     wf_items (alloc L) (blocks L) ns"

text \<open>
  Both allocations of \<^verbatim>\<open>list_create_element\<close> succeed on the proposals \<open>r\<close> (the second
  one is made in owning mode only, when the node is already live).
\<close>

definition alloc_ok :: "list_t \<Rightarrow> ptr \<times> ptr \<Rightarrow> bool" where
  "alloc_ok L r \<longleftrightarrow> fresh L (fst r) \<and> (alloc L \<longrightarrow> fresh L (snd r) \<and> snd r \<noteq> fst r)"

text \<open>The payload pointer that ends up in the new node: the copy, or the argument itself.\<close>

definition stored :: "list_t \<Rightarrow> ptr \<Rightarrow> ptr \<times> ptr \<Rightarrow> ptr" where
  "stored L e r = (if alloc L then snd r else e)"

text \<open>The state in which a successful \<^verbatim>\<open>list_create_element\<close> leaves the list.\<close>

definition created :: "list_t \<Rightarrow> ptr \<Rightarrow> size_t \<Rightarrow> ptr \<times> ptr \<Rightarrow> list_t" where
  "created L e sz r =
     (if alloc L then
        L\<lparr>nodes := (nodes L)(fst r \<mapsto> \<lparr>prev = NULL, next = NULL, elem = snd r\<rparr>),
          blocks := (blocks L)(snd r \<mapsto> sz),
          bytes := memcpy (bytes L) (snd r) e sz\<rparr>
      else L\<lparr>nodes := (nodes L)(fst r \<mapsto> \<lparr>prev = NULL, next = NULL, elem = e\<rparr>)\<rparr>)"

text \<open>
  The answer of the callback \<open>f\<close> on an existing pair during \<^verbatim>\<open>list_add(list, e, size)\<close>: it
  runs in the state where the new node exists and is not linked yet.
\<close>

definition keeps_before :: "list_t \<Rightarrow> ptr \<Rightarrow> size_t \<Rightarrow> ptr \<times> ptr \<Rightarrow> sort_t \<Rightarrow> ptr \<times> ptr \<Rightarrow> bool" where
  "keeps_before L e sz r f = (\<lambda>(b, x). f (list_state.truncate (created L e sz r)) x e)"

text \<open>Where \<^verbatim>\<open>list_add\<close> puts the pair of the new node, as a function on the list of pairs.\<close>

definition placed :: "list_t \<Rightarrow> ptr \<Rightarrow> size_t \<Rightarrow> ptr \<times> ptr \<Rightarrow> (ptr \<times> ptr) list \<Rightarrow> (ptr \<times> ptr) list" where
  "placed L e sz r ns =
     (case sort_fn L of
        None \<Rightarrow> ns @ [(fst r, stored L e r)]
      | Some f \<Rightarrow> takeWhile (keeps_before L e sz r f) ns @ (fst r, stored L e r)
                    # dropWhile (keeps_before L e sz r f) ns)"

subsection \<open>Reachable states and sequences of calls\<close>

text \<open>
  The states a caller can get the list into: \<^verbatim>\<open>list_create\<close> followed by any calls of the
  public functions that return.
\<close>

inductive reachable :: "list_t \<Rightarrow> bool" where
  by_create: "list_create m a s r = Some L \<Longrightarrow> reachable L"
| by_add: "reachable L \<Longrightarrow> list_add L e sz r = Some (rc, L') \<Longrightarrow> reachable L'"
| by_add_head: "reachable L \<Longrightarrow> list_add_head L e sz r = Some (rc, L') \<Longrightarrow> reachable L'"
| by_add_tail: "reachable L \<Longrightarrow> list_add_tail L e sz r = Some (rc, L') \<Longrightarrow> reachable L'"
| by_get_count: "reachable L \<Longrightarrow> list_get_count L = Some (n, L') \<Longrightarrow> reachable L'"
| by_get_head: "reachable L \<Longrightarrow> list_get_head L = Some (p, L') \<Longrightarrow> reachable L'"
| by_get_tail: "reachable L \<Longrightarrow> list_get_tail L = Some (p, L') \<Longrightarrow> reachable L'"
| by_get_next: "reachable L \<Longrightarrow> list_get_next L = Some (p, L') \<Longrightarrow> reachable L'"
| by_get_prev: "reachable L \<Longrightarrow> list_get_prev L = Some (p, L') \<Longrightarrow> reachable L'"
| by_remove: "reachable L \<Longrightarrow> list_remove L e = Some (p, L') \<Longrightarrow> reachable L'"
| by_remove_head: "reachable L \<Longrightarrow> list_remove_head L = Some (p, L') \<Longrightarrow> reachable L'"
| by_remove_tail: "reachable L \<Longrightarrow> list_remove_tail L = Some (p, L') \<Longrightarrow> reachable L'"

text \<open>
  A call of one of the six functions that change the chain, with its arguments (and for
  the insertions the two proposals of the allocator). \<open>apply_call\<close> runs it and reports
  whether it was a successful add (the function returned 0) and whether it was a
  successful remove (the function took the branch that unlinks a node: the search found
  one, or \<open>first\<close>, or \<open>last\<close>, was not \<^verbatim>\<open>NULL\<close>). \<open>run\<close> runs a sequence of calls and adds
  these up.
\<close>

datatype call =
  Add ptr size_t "ptr \<times> ptr"
| Add_head ptr size_t "ptr \<times> ptr"
| Add_tail ptr size_t "ptr \<times> ptr"
| Remove ptr
| Remove_head
| Remove_tail

fun apply_call :: "list_t \<Rightarrow> call \<Rightarrow> (nat \<times> nat \<times> list_t) option" where
  "apply_call L (Add e sz r) = do {
     (rc, L') \<leftarrow> list_add L e sz r;
     Some (if rc = 0 then 1 else 0, 0, L') }"
| "apply_call L (Add_head e sz r) = do {
     (rc, L') \<leftarrow> list_add_head L e sz r;
     Some (if rc = 0 then 1 else 0, 0, L') }"
| "apply_call L (Add_tail e sz r) = do {
     (rc, L') \<leftarrow> list_add_tail L e sz r;
     Some (if rc = 0 then 1 else 0, 0, L') }"
| "apply_call L (Remove e) = do {
     tmp \<leftarrow> list_remove_search L e (first L);
     (ret, L') \<leftarrow> list_remove L e;
     Some (0, if tmp \<noteq> NULL then 1 else 0, L') }"
| "apply_call L Remove_head = do {
     (ret, L') \<leftarrow> list_remove_head L;
     Some (0, if first L \<noteq> NULL then 1 else 0, L') }"
| "apply_call L Remove_tail = do {
     (ret, L') \<leftarrow> list_remove_tail L;
     Some (0, if last_p L \<noteq> NULL then 1 else 0, L') }"

fun run :: "list_t \<Rightarrow> call list \<Rightarrow> (nat \<times> nat \<times> list_t) option" where
  "run L [] = Some (0, 0, L)"
| "run L (c # cs) = do {
     (a, d, L') \<leftarrow> apply_call L c;
     (a', d', L'') \<leftarrow> run L' cs;
     Some (a + a', d + d', L'') }"

fun payload_given :: "call \<Rightarrow> bool" where
  "payload_given (Add e sz r) \<longleftrightarrow> e \<noteq> NULL"
| "payload_given (Add_head e sz r) \<longleftrightarrow> e \<noteq> NULL"
| "payload_given (Add_tail e sz r) \<longleftrightarrow> e \<noteq> NULL"
| "payload_given (Remove e) \<longleftrightarrow> True"
| "payload_given Remove_head \<longleftrightarrow> True"
| "payload_given Remove_tail \<longleftrightarrow> True"

text \<open>Walking \<^verbatim>\<open>next\<close> from a node until \<^verbatim>\<open>NULL\<close>, counting the nodes visited.\<close>

partial_function (option) walk :: "list_t \<Rightarrow> ptr \<Rightarrow> nat \<Rightarrow> nat option" where
  "walk L p n =
     (if p \<noteq> NULL then do { p_next \<leftarrow> get_next L p; walk L p_next (Suc n) } else Some n)"

declare walk.simps [code]

subsection \<open>Example states\<close>

text \<open>
  A memory without live blocks; a list in borrowing mode without callback, empty, then
  holding the payloads \<open>0x100\<close> and \<open>0x200\<close> in nodes at \<open>0x10\<close> and \<open>0x20\<close>; and an empty
  list in owning mode.
\<close>

definition ex_mem :: memory where
  "ex_mem = \<lparr>nodes = Map.empty, blocks = Map.empty, bytes = (\<lambda>_. 0)\<rparr>"

definition ex_new :: list_t where
  "ex_new = \<lparr>nodes = Map.empty, blocks = Map.empty, bytes = (\<lambda>_. 0),
     first = NULL, last_p = NULL, curr = NULL, count = 0, alloc = False, sort_fn = None\<rparr>"

definition ex_one :: list_t where
  "ex_one = \<lparr>nodes = [0x10 \<mapsto> \<lparr>prev = NULL, next = NULL, elem = 0x100\<rparr>],
     blocks = Map.empty, bytes = (\<lambda>_. 0),
     first = 0x10, last_p = 0x10, curr = 0x10, count = 1, alloc = False, sort_fn = None\<rparr>"

definition ex_two :: list_t where
  "ex_two = \<lparr>nodes = [0x10 \<mapsto> \<lparr>prev = NULL, next = 0x20, elem = 0x100\<rparr>,
                       0x20 \<mapsto> \<lparr>prev = 0x10, next = NULL, elem = 0x200\<rparr>],
     blocks = Map.empty, bytes = (\<lambda>_. 0),
     first = 0x10, last_p = 0x20, curr = 0x10, count = 2, alloc = False, sort_fn = None\<rparr>"

definition ex_own :: list_t where
  "ex_own = \<lparr>nodes = Map.empty, blocks = Map.empty, bytes = (\<lambda>_. 0),
     first = NULL, last_p = NULL, curr = NULL, count = 0, alloc = True, sort_fn = None\<rparr>"

definition ex_three :: list_t where
  "ex_three = \<lparr>nodes = [0x10 \<mapsto> \<lparr>prev = NULL, next = 0x20, elem = 0x100\<rparr>,
                         0x20 \<mapsto> \<lparr>prev = 0x10, next = 0x30, elem = 0x200\<rparr>,
                         0x30 \<mapsto> \<lparr>prev = 0x20, next = NULL, elem = 0x300\<rparr>],
     blocks = Map.empty, bytes = (\<lambda>_. 0),
     first = 0x10, last_p = 0x30, curr = 0x10, count = 3, alloc = False, sort_fn = None\<rparr>"

text \<open>
  The owning list after one insertion: the payload at \<open>0x300\<close> was copied into the block
  at \<open>0x50\<close>.
\<close>

definition ex_own_one :: list_t where
  "ex_own_one = \<lparr>nodes = [0x10 \<mapsto> \<lparr>prev = NULL, next = NULL, elem = 0x50\<rparr>],
     blocks = [0x50 \<mapsto> 8], bytes = memcpy (\<lambda>_. 0) 0x50 0x300 8,
     first = 0x10, last_p = 0x10, curr = 0x10, count = 1, alloc = True, sort_fn = None\<rparr>"

text \<open>
  A memory with three payloads that start with the letters a (at \<open>0x100\<close>), c (at
  \<open>0x200\<close>) and b (at \<open>0x300\<close>); a callback that compares the first bytes of its two
  payloads; and the list that holds the first two payloads, sorted by it.
\<close>

definition ex_letters :: memory where
  "ex_letters = \<lparr>nodes = Map.empty, blocks = Map.empty,
     bytes = (\<lambda>_. 0)(0x100 := 0x61, 0x200 := 0x63, 0x300 := 0x62)\<rparr>"

definition by_first_byte :: sort_t where
  "by_first_byte = (\<lambda>st x y. bytes st x < bytes st y)"

definition ex_sorted :: list_t where
  "ex_sorted = \<lparr>nodes = [0x10 \<mapsto> \<lparr>prev = NULL, next = 0x20, elem = 0x100\<rparr>,
                          0x20 \<mapsto> \<lparr>prev = 0x10, next = NULL, elem = 0x200\<rparr>],
     blocks = Map.empty, bytes = (\<lambda>_. 0)(0x100 := 0x61, 0x200 := 0x63, 0x300 := 0x62),
     first = 0x10, last_p = 0x20, curr = 0x10, count = 2, alloc = False,
     sort_fn = Some by_first_byte\<rparr>"

text \<open>
  A sequence of calls on the empty borrowing list: an append, an insertion that gets no
  memory, two more insertions, the removal of a payload that is not there, and two
  removals that find their node.
\<close>

definition ex_calls :: "call list" where
  "ex_calls = [Add_tail 0x100 8 (0x10, NULL), Add 0x200 8 (NULL, NULL),
     Add_head 0x200 8 (0x20, NULL), Add 0x300 8 (0x30, NULL), Remove 0x400, Remove 0x100,
     Remove_tail]"

section \<open>Lemmas about the chain\<close>

lemma c_assert_simps [simp]: "c_assert True = Some ()" "c_assert False = None"
  by (simp_all add: c_assert_def)

lemma wf_items_insert:
  assumes "wf_items own bl (xs @ ys)" "a \<notin> fst ` set (xs @ ys)" "p \<noteq> NULL"
    "own \<Longrightarrow> p \<notin> snd ` set (xs @ ys) \<and> bl' = bl(p \<mapsto> sz)" "\<not> own \<Longrightarrow> bl' = bl"
  shows "wf_items own bl' (xs @ (a, p) # ys)"
proof (cases own)
  case True
  with assms(4) have p: "p \<notin> snd ` set xs" "p \<notin> snd ` set ys" "bl' = bl(p \<mapsto> sz)" by auto
  have "distinct (map snd (xs @ ys))" "snd ` set (xs @ ys) \<subseteq> dom bl"
    using assms(1) True by (simp_all add: wf_items_def)
  then have "distinct (map snd (xs @ (a, p) # ys))" "snd ` set (xs @ (a, p) # ys) \<subseteq> dom bl'"
    using p by auto
  moreover have "distinct (map fst (xs @ (a, p) # ys))" "NULL \<notin> snd ` set (xs @ (a, p) # ys)"
    using assms(1,2,3) by (auto simp: wf_items_def)
  ultimately show ?thesis by (simp only: wf_items_def) blast
next
  case False
  have "distinct (map fst (xs @ (a, p) # ys))" "NULL \<notin> snd ` set (xs @ (a, p) # ys)"
    using assms(1,2,3) by (auto simp: wf_items_def)
  then show ?thesis using False by (simp only: wf_items_def) blast
qed

lemma wf_items_remove:
  assumes "wf_items own bl (xs @ (t, y) # ys)" "own \<Longrightarrow> bl' = bl(y := None) \<or> bl' = bl"
    "\<not> own \<Longrightarrow> bl' = bl"
  shows "wf_items own bl' (xs @ ys)"
proof (cases own)
  case True
  have d: "distinct (map snd (xs @ (t, y) # ys))" "snd ` set (xs @ (t, y) # ys) \<subseteq> dom bl"
    using assms(1) True by (simp_all add: wf_items_def)
  then have y: "y \<notin> snd ` set xs" "y \<notin> snd ` set ys" by auto
  have "snd ` set (xs @ ys) \<subseteq> dom bl'"
    using assms(2) [OF True] d(2) y by (fastforce simp: image_iff)
  moreover have "distinct (map snd (xs @ ys))" using d(1) by auto
  moreover have "distinct (map fst (xs @ ys))" "NULL \<notin> snd ` set (xs @ ys)"
    using assms(1) by (auto simp: wf_items_def)
  ultimately show ?thesis by (simp only: wf_items_def) blast
next
  case False
  have "distinct (map fst (xs @ ys))" "NULL \<notin> snd ` set (xs @ ys)"
    using assms(1) by (auto simp: wf_items_def)
  then show ?thesis using False by (simp only: wf_items_def) blast
qed

lemma wf_listD:
  assumes "wf_list L ns"
  shows "dlseg (nodes L) NULL (first L) ns NULL" "distinct (map fst ns)"
    "last_p L = (if ns = [] then NULL else fst (last ns))" "unat (count L) = length ns"
    "curr L = NULL \<or> curr L \<in> fst ` set ns" "NULL \<notin> snd ` set ns"
    "alloc L \<Longrightarrow> distinct (map snd ns)" "alloc L \<Longrightarrow> snd ` set ns \<subseteq> dom (blocks L)"
    "wf_items (alloc L) (blocks L) ns"
  using assms by (simp_all add: wf_list_def wf_items_def)

lemma wf_listI:
  assumes "dlseg (nodes L) NULL (first L) ns NULL"
    "last_p L = (if ns = [] then NULL else fst (last ns))" "unat (count L) = length ns"
    "curr L = NULL \<or> curr L \<in> fst ` set ns" "wf_items (alloc L) (blocks L) ns"
  shows "wf_list L ns"
  using assms by (simp add: wf_list_def)

lemma dlseg_upd_notin [simp]:
  "a \<notin> fst ` set ns \<Longrightarrow> dlseg (h(a := v)) pr p ns q = dlseg h pr p ns q"
  by (induction ns arbitrary: pr p) (auto split: option.splits)

lemma dlseg_live: "dlseg h pr p ns q \<Longrightarrow> (a, x) \<in> set ns \<Longrightarrow> a \<noteq> NULL \<and> (\<exists>n. h a = Some n \<and> elem n = x)"
  by (induction ns arbitrary: pr p) (auto split: option.splits)

lemma dlseg_append:
  "dlseg h pr p (xs @ ys) q \<longleftrightarrow> (\<exists>m. dlseg h pr p xs m \<and> dlseg h (last (pr # map fst xs)) m ys q)"
  by (induction xs arbitrary: pr p) (auto split: option.splits)

lemma dlseg_snoc:
  "dlseg h pr p (xs @ [(a, x)]) q \<longleftrightarrow>
     dlseg h pr p xs a \<and> a \<noteq> NULL \<and>
     (\<exists>n. h a = Some n \<and> prev n = last (pr # map fst xs) \<and> elem n = x \<and> next n = q)"
  by (auto simp: dlseg_append split: option.splits)

lemma dlseg_NULL_start: "dlseg h pr NULL ns q \<longleftrightarrow> ns = [] \<and> q = NULL"
  by (cases ns) auto

lemma distinct_nonzero_length:
  fixes ns :: "ptr list"
  assumes "distinct ns" "NULL \<notin> set ns"
  shows "length ns < 2 ^ 64"
proof -
  have "set ns \<subseteq> UNIV - {NULL}" using assms by auto
  then have "card (set ns) \<le> card (UNIV - {NULL :: ptr})"
    by (intro card_mono) auto
  also have "\<dots> = 2 ^ 64 - 1"
    by (simp add: card_Diff_singleton card_word)
  finally show ?thesis using assms by (simp add: distinct_card)
qed

lemma wf_length: "wf_list L ns \<Longrightarrow> a \<notin> fst ` set ns \<Longrightarrow> a \<noteq> NULL \<Longrightarrow> Suc (length ns) < 2 ^ 64"
proof -
  assume wf: "wf_list L ns" and a: "a \<notin> fst ` set ns" "a \<noteq> NULL"
  have "NULL \<notin> set (map fst ns)"
    using dlseg_live [OF wf_listD(1) [OF wf]] by fastforce
  then have "distinct (a # map fst ns)" "NULL \<notin> set (a # map fst ns)"
    using wf_listD(2) [OF wf] a by auto
  from distinct_nonzero_length [OF this] show ?thesis by simp
qed

lemma count_incr: "unat (c :: size_t) = n \<Longrightarrow> Suc n < 2 ^ 64 \<Longrightarrow> unat (c + 1) = Suc n"
  by (simp add: unat_word_ariths)

lemma list_create_element_assert: "list_create_element L NULL sz r = None"
  by (simp add: list_create_element_def)

lemma list_create_element_fail:
  "e \<noteq> NULL \<Longrightarrow> \<not> alloc_ok L r \<Longrightarrow> list_create_element L e sz r = Some (NULL, L)"
  by (auto simp: list_create_element_def alloc_ok_def malloc_def fresh_def Let_def
      set_elem_def deref_def free_node_def domIff)

lemma list_create_element_ok:
  "e \<noteq> NULL \<Longrightarrow> alloc_ok L r \<Longrightarrow> list_create_element L e sz r = Some (fst r, created L e sz r)"
  by (auto simp: list_create_element_def alloc_ok_def malloc_def fresh_def Let_def
      set_elem_def deref_def created_def)

lemma created_fields [simp]:
  "first (created L e sz r) = first L" "last_p (created L e sz r) = last_p L"
  "curr (created L e sz r) = curr L" "count (created L e sz r) = count L"
  "alloc (created L e sz r) = alloc L" "sort_fn (created L e sz r) = sort_fn L"
  "nodes (created L e sz r) = (nodes L)(fst r \<mapsto> \<lparr>prev = NULL, next = NULL, elem = stored L e r\<rparr>)"
  by (simp_all add: created_def stored_def)

lemma created_blocks:
  "blocks (created L e sz r) = (if alloc L then (blocks L)(snd r \<mapsto> sz) else blocks L)"
  by (simp add: created_def)

lemma wf_fresh_node: "wf_list L ns \<Longrightarrow> fresh L a \<Longrightarrow> a \<notin> fst ` set ns"
  using dlseg_live [of "nodes L" NULL "first L" ns NULL a]
  by (fastforce simp: wf_list_def fresh_def)

lemma wf_fresh_block: "wf_list L ns \<Longrightarrow> alloc L \<Longrightarrow> fresh L b \<Longrightarrow> b \<notin> snd ` set ns"
  by (auto simp: wf_list_def wf_items_def fresh_def)

lemma alloc_ok_facts:
  assumes wf: "wf_list L ns" and e: "e \<noteq> NULL" and ok: "alloc_ok L r"
  shows "fst r \<notin> fst ` set ns" "fst r \<noteq> NULL" "unat (count L + 1) = Suc (length ns)"
    "stored L e r \<noteq> NULL" "alloc L \<Longrightarrow> stored L e r \<notin> snd ` set ns"
    "alloc L \<Longrightarrow> stored L e r = snd r"
proof -
  have f: "fresh L (fst r)" using ok by (simp add: alloc_ok_def)
  show a: "fst r \<notin> fst ` set ns" by (rule wf_fresh_node [OF wf f])
  show a0: "fst r \<noteq> NULL" using f by (simp add: fresh_def)
  show "unat (count L + 1) = Suc (length ns)"
    using wf wf_length [OF wf a a0] by (intro count_incr) (auto simp: wf_list_def)
  show "stored L e r \<noteq> NULL" using e ok by (auto simp: stored_def alloc_ok_def fresh_def)
  show "alloc L \<Longrightarrow> stored L e r \<notin> snd ` set ns"
    using ok wf_fresh_block [OF wf] by (auto simp: stored_def alloc_ok_def)
  show "alloc L \<Longrightarrow> stored L e r = snd r" by (simp add: stored_def)
qed

text \<open>The list part of the invariant after a created node has been put between \<open>xs\<close> and \<open>ys\<close>.\<close>

lemma created_items:
  assumes wf: "wf_list L (xs @ ys)" and e: "e \<noteq> NULL" and ok: "alloc_ok L r"
  shows "wf_items (alloc L) (blocks (created L e sz r)) (xs @ (fst r, stored L e r) # ys)"
proof -
  note facts = alloc_ok_facts [OF wf e ok]
  show ?thesis
    by (rule wf_items_insert [OF wf_listD(9) [OF wf] facts(1) facts(4), where sz = sz])
       (use facts(5,6) in \<open>auto simp: created_blocks\<close>)
qed

lemma dlseg_set_next_last:
  "dlseg h pr p (xs @ [(u, w)]) q \<Longrightarrow> u \<notin> fst ` set xs \<Longrightarrow> h u = Some nu \<Longrightarrow>
   dlseg (h(u \<mapsto> nu\<lparr>next := q'\<rparr>)) pr p (xs @ [(u, w)]) q'"
  by (simp add: dlseg_snoc)

lemma curr_insert:
  "c = NULL \<or> c \<in> fst ` set (xs @ ys) \<Longrightarrow> c = NULL \<or> c \<in> fst ` set (xs @ (a, p) # ys)"
  by auto

lemma list_add_head_ok:
  assumes wf: "wf_list L ns" and e: "e \<noteq> NULL" and ok: "alloc_ok L r"
  shows "\<exists>L'. list_add_head L e sz r = Some (0, L') \<and> wf_list L' ((fst r, stored L e r) # ns)
           \<and> alloc L' = alloc L \<and> sort_fn L' = sort_fn L"
proof -
  let ?a = "fst r" and ?p = "stored L e r" and ?L0 = "created L e sz r"
  note facts = alloc_ok_facts [OF wf e ok]
  note a = facts(1,2) and len = facts(3)
  note seg = wf_listD(1) [OF wf] and dist = wf_listD(2) [OF wf] and lst = wf_listD(3) [OF wf]
    and cur = wf_listD(5) [OF wf]
  have items: "wf_items (alloc L) (blocks ?L0) ([] @ (?a, ?p) # ns)"
    using created_items [of L "[]" ns, OF _ e ok] wf by simp
  show ?thesis
  proof (cases ns)
    case Nil
    then have f: "first L = NULL" using seg by simp
    define L' where "L' = ?L0\<lparr>first := ?a, last_p := ?a, curr := ?a, count := count L + 1\<rparr>"
    have run: "list_add_head L e sz r = Some (0, L')"
      using e ok f a by (simp add: list_add_head_def list_create_element_ok L'_def)
    have "wf_list L' ((?a, ?p) # ns)"
    proof (rule wf_listI)
      show "dlseg (nodes L') NULL (first L') ((?a, ?p) # ns) NULL"
        using a Nil by (simp add: L'_def)
      show "last_p L' = (if (?a, ?p) # ns = [] then NULL else fst (last ((?a, ?p) # ns)))"
        using Nil by (simp add: L'_def)
      show "unat (count L') = length ((?a, ?p) # ns)" using len by (simp add: L'_def)
      show "curr L' = NULL \<or> curr L' \<in> fst ` set ((?a, ?p) # ns)" by (simp add: L'_def)
      show "wf_items (alloc L') (blocks L') ((?a, ?p) # ns)" using items by (simp add: L'_def)
    qed
    then show ?thesis using run by (simp add: L'_def)
  next
    case (Cons fx rest)
    obtain f x where fx: "fx = (f, x)" by (cases fx)
    from seg Cons fx obtain nf where f: "first L = f" "f \<noteq> NULL" "nodes L f = Some nf"
      "prev nf = NULL" "elem nf = x" "dlseg (nodes L) f (next nf) rest NULL"
      by (auto split: option.splits)
    have af: "?a \<noteq> f" "f \<noteq> ?a" "f \<notin> fst ` set rest" "?a \<notin> fst ` set rest"
      using a dist Cons fx by auto
    define h where "h = (nodes L)(?a \<mapsto> \<lparr>prev = NULL, next = NULL, elem = ?p\<rparr>,
       f \<mapsto> nf\<lparr>prev := ?a\<rparr>, ?a \<mapsto> \<lparr>prev = NULL, next = f, elem = ?p\<rparr>)"
    define L' where "L' = ?L0\<lparr>nodes := h, first := ?a, count := count L + 1\<rparr>"
    have run: "list_add_head L e sz r = Some (0, L')"
      using e ok f a af 
      by (simp add: list_add_head_def list_create_element_ok L'_def h_def set_prev_def set_next_def deref_def)
    have "wf_list L' ((?a, ?p) # ns)"
    proof (rule wf_listI)
      show "dlseg (nodes L') NULL (first L') ((?a, ?p) # ns) NULL"
        using f a af Cons fx by (simp add: L'_def h_def)
      show "last_p L' = (if (?a, ?p) # ns = [] then NULL else fst (last ((?a, ?p) # ns)))"
        using lst Cons by (simp add: L'_def)
      show "unat (count L') = length ((?a, ?p) # ns)" using len by (simp add: L'_def)
      show "curr L' = NULL \<or> curr L' \<in> fst ` set ((?a, ?p) # ns)"
        using curr_insert [of "curr L" "[]" ns] cur by (simp add: L'_def)
      show "wf_items (alloc L') (blocks L') ((?a, ?p) # ns)" using items by (simp add: L'_def)
    qed
    then show ?thesis using run by (simp add: L'_def)
  qed
qed

text \<open>The three assignments that append a created node after \<open>last\<close>.\<close>

lemma link_tail_ok:
  assumes wf: "wf_list L ns" and ne: "ns \<noteq> []" and e: "e \<noteq> NULL" and ok: "alloc_ok L r"
  shows "\<exists>L'. do {
            L1 \<leftarrow> set_next (last_p (created L e sz r)) (fst r) (created L e sz r);
            L2 \<leftarrow> set_prev (fst r) (last_p L1) L1;
            Some (L2\<lparr>last_p := fst r\<rparr>)
          } = Some L' \<and> wf_list (L'\<lparr>count := count L' + 1\<rparr>) (ns @ [(fst r, stored L e r)])
          \<and> alloc L' = alloc L \<and> sort_fn L' = sort_fn L"
proof -
  let ?a = "fst r" and ?p = "stored L e r" and ?L0 = "created L e sz r"
  note facts = alloc_ok_facts [OF wf e ok]
  note a = facts(1,2) and len = facts(3)
  note seg = wf_listD(1) [OF wf] and dist = wf_listD(2) [OF wf] and lst = wf_listD(3) [OF wf]
    and cur = wf_listD(5) [OF wf]
  have items: "wf_items (alloc L) (blocks ?L0) (ns @ (?a, ?p) # [])"
    using created_items [of L ns "[]", OF _ e ok] wf by simp
  from ne obtain xs l y where ns: "ns = xs @ [(l, y)]"
    by (metis rev_exhaust surj_pair)
  from seg ns obtain nl where l: "last_p L = l" "l \<noteq> NULL" "nodes L l = Some nl"
    "dlseg (nodes L) NULL (first L) (xs @ [(l, y)]) NULL"
    using lst by (auto simp: dlseg_snoc)
  have al: "?a \<noteq> l" "l \<noteq> ?a" "l \<notin> fst ` set xs" "?a \<notin> fst ` set xs"
    using a dist ns by auto
  define h where "h = (nodes L)(?a \<mapsto> \<lparr>prev = NULL, next = NULL, elem = ?p\<rparr>,
     l \<mapsto> nl\<lparr>next := ?a\<rparr>, ?a \<mapsto> \<lparr>prev = l, next = NULL, elem = ?p\<rparr>)"
  define L' where "L' = ?L0\<lparr>nodes := h, last_p := ?a\<rparr>"
  have run: "do {
            L1 \<leftarrow> set_next (last_p ?L0) ?a ?L0;
            L2 \<leftarrow> set_prev ?a (last_p L1) L1;
            Some (L2\<lparr>last_p := ?a\<rparr>)
          } = Some L'"
    using l a al
    by (simp add: L'_def h_def set_prev_def set_next_def deref_def)
  have "dlseg ((nodes L)(l \<mapsto> nl\<lparr>next := ?a\<rparr>)) NULL (first L) (xs @ [(l, y)]) ?a"
    using l al by (intro dlseg_set_next_last) auto
  then have h: "dlseg h NULL (first L) ((xs @ [(l, y)]) @ [(?a, ?p)]) NULL"
    unfolding h_def using a al ns by (subst dlseg_snoc) simp
  have "wf_list (L'\<lparr>count := count L' + 1\<rparr>) (ns @ [(?a, ?p)])"
  proof (rule wf_listI)
    show "dlseg (nodes (L'\<lparr>count := count L' + 1\<rparr>)) NULL (first (L'\<lparr>count := count L' + 1\<rparr>)) (ns @ [(?a, ?p)]) NULL"
      using h ns by (simp add: L'_def)
    show "last_p (L'\<lparr>count := count L' + 1\<rparr>) = (if ns @ [(?a, ?p)] = [] then NULL else fst (last (ns @ [(?a, ?p)])))"
      by (simp add: L'_def)
    show "unat (count (L'\<lparr>count := count L' + 1\<rparr>)) = length (ns @ [(?a, ?p)])"
      using len by (simp add: L'_def)
    show "curr (L'\<lparr>count := count L' + 1\<rparr>) = NULL \<or> curr (L'\<lparr>count := count L' + 1\<rparr>) \<in> fst ` set (ns @ [(?a, ?p)])"
      using curr_insert [of "curr L" ns "[]"] cur by (simp add: L'_def)
    show "wf_items (alloc (L'\<lparr>count := count L' + 1\<rparr>)) (blocks (L'\<lparr>count := count L' + 1\<rparr>)) (ns @ [(?a, ?p)])"
      using items by (simp add: L'_def)
  qed
  then show ?thesis using run by (simp add: L'_def)
qed


lemma list_add_tail_ok:
  assumes wf: "wf_list L ns" and e: "e \<noteq> NULL" and ok: "alloc_ok L r"
  shows "\<exists>L'. list_add_tail L e sz r = Some (0, L') \<and> wf_list L' (ns @ [(fst r, stored L e r)])
           \<and> alloc L' = alloc L \<and> sort_fn L' = sort_fn L"
proof (cases "ns = []")
  case True
  let ?a = "fst r" and ?p = "stored L e r" and ?L0 = "created L e sz r"
  note facts = alloc_ok_facts [OF wf e ok]
  note a = facts(1,2) and len = facts(3)
  have items: "wf_items (alloc L) (blocks ?L0) ([(?a, ?p)])"
    using created_items [of L "[]" "[]", OF _ e ok] wf True by simp
  have f: "last_p L = NULL" using wf_listD(3) [OF wf] True by simp
  define L' where "L' = ?L0\<lparr>last_p := ?a, first := ?a, curr := ?a, count := count L + 1\<rparr>"
  have run: "list_add_tail L e sz r = Some (0, L')"
    using e ok f a by (simp add: list_add_tail_def list_create_element_ok L'_def)
  have "wf_list L' [(?a, ?p)]"
  proof (rule wf_listI)
    show "dlseg (nodes L') NULL (first L') [(?a, ?p)] NULL"
      using a by (simp add: L'_def)
    show "last_p L' = (if [(?a, ?p)] = [] then NULL else fst (last [(?a, ?p)]))"
      by (simp add: L'_def)
    show "unat (count L') = length [(?a, ?p)]" using len True by (simp add: L'_def)
    show "curr L' = NULL \<or> curr L' \<in> fst ` set [(?a, ?p)]" by (simp add: L'_def)
    show "wf_items (alloc L') (blocks L') [(?a, ?p)]" using items by (simp add: L'_def)
  qed
  then show ?thesis using run True by (simp add: L'_def)
next
  case False
  then have l: "last_p L \<noteq> NULL"
    using wf_listD(3) [OF wf] dlseg_live [OF wf_listD(1) [OF wf], of "fst (last ns)" "snd (last ns)"]
    by simp
  have a: "fst r \<noteq> NULL" using ok by (simp add: alloc_ok_def fresh_def)
  from link_tail_ok [OF wf False e ok, of sz] obtain L' where
    L': "do {
            L1 \<leftarrow> set_next (last_p (created L e sz r)) (fst r) (created L e sz r);
            L2 \<leftarrow> set_prev (fst r) (last_p L1) L1;
            Some (L2\<lparr>last_p := fst r\<rparr>)
          } = Some L'" "wf_list (L'\<lparr>count := count L' + 1\<rparr>) (ns @ [(fst r, stored L e r)])"
       "alloc L' = alloc L" "sort_fn L' = sort_fn L"
    by blast
  have "list_add_tail L e sz r = Some (0, L'\<lparr>count := count L' + 1\<rparr>)"
    using e ok l a L'(1) by (simp add: list_add_tail_def list_create_element_ok)
  then show ?thesis using L' by simp
qed

lemma list_add_loop_skip:
  "dlseg (nodes L) pr p xs m \<Longrightarrow> \<forall>(b, x) \<in> set xs. f (list_state.truncate L) x e \<Longrightarrow>
   list_add_loop f L a e p = list_add_loop f L a e m"
proof (induction xs arbitrary: pr p)
  case Nil
  then show ?case by simp
next
  case (Cons bx xs)
  obtain b x where bx: "bx = (b, x)" by (cases bx)
  from Cons.prems(1) bx obtain n where n: "p = b" "b \<noteq> NULL" "nodes L b = Some n" "elem n = x"
    "dlseg (nodes L) b (next n) xs m"
    by (auto split: option.splits)
  have "list_add_loop f L a e p = list_add_loop f L a e (next n)"
    using n Cons.prems(2) bx
    by (subst list_add_loop.simps) (simp add: get_elem_def get_next_def deref_def)
  also have "\<dots> = list_add_loop f L a e m"
    using Cons.IH [OF n(5)] Cons.prems(2) by simp
  finally show ?case .
qed

lemma list_add_loop_insert:
  assumes wf: "wf_list L (xs @ (t, y) # ys)" and e: "e \<noteq> NULL" and ok: "alloc_ok L r"
    and stop: "\<not> f (list_state.truncate (created L e sz r)) y e"
  shows "\<exists>L'. list_add_loop f (created L e sz r) (fst r) e t = Some L' \<and>
           wf_list (L'\<lparr>count := count L' + 1\<rparr>) (xs @ (fst r, stored L e r) # (t, y) # ys) \<and>
           alloc L' = alloc L \<and> sort_fn L' = sort_fn L"
proof -
  let ?a = "fst r" and ?p = "stored L e r" and ?ns = "xs @ (t, y) # ys" and ?L0 = "created L e sz r"
  let ?ns' = "xs @ (?a, ?p) # (t, y) # ys"
  note facts = alloc_ok_facts [OF wf e ok]
  note a = facts(1,2) and len = facts(3)
  note seg = wf_listD(1) [OF wf] and dist = wf_listD(2) [OF wf] and lst = wf_listD(3) [OF wf]
    and cur = wf_listD(5) [OF wf]
  have items: "wf_items (alloc L) (blocks ?L0) ?ns'"
    by (rule created_items [OF wf e ok])
  from seg obtain nt where t: "dlseg (nodes L) NULL (first L) xs t" "t \<noteq> NULL"
    "nodes L t = Some nt" "prev nt = last (NULL # map fst xs)" "elem nt = y"
    "dlseg (nodes L) t (next nt) ys NULL"
    by (auto simp: dlseg_append split: option.splits)
  have at: "?a \<noteq> t" "t \<noteq> ?a" "t \<notin> fst ` set xs" "t \<notin> fst ` set ys"
    "?a \<notin> fst ` set xs" "?a \<notin> fst ` set ys"
    using a dist by auto
  have rest: "wf_list (L'\<lparr>count := count L' + 1\<rparr>) ?ns'"
    if L': "first L' = (if xs = [] then ?a else first L)" "last_p L' = last_p L" "curr L' = curr L"
      "count L' = count L" "alloc L' = alloc L" "blocks L' = blocks ?L0"
      and h: "dlseg (nodes L') NULL (first L') ?ns' NULL" for L'
  proof (rule wf_listI)
    show "dlseg (nodes (L'\<lparr>count := count L' + 1\<rparr>)) NULL (first (L'\<lparr>count := count L' + 1\<rparr>)) ?ns' NULL"
      using h by simp
    show "last_p (L'\<lparr>count := count L' + 1\<rparr>) = (if ?ns' = [] then NULL else fst (last ?ns'))"
      using lst L' by simp
    show "unat (count (L'\<lparr>count := count L' + 1\<rparr>)) = length ?ns'"
      using len L' by simp
    show "curr (L'\<lparr>count := count L' + 1\<rparr>) = NULL \<or> curr (L'\<lparr>count := count L' + 1\<rparr>) \<in> fst ` set ?ns'"
      using curr_insert [OF cur, of ?a ?p] L' by simp
    show "wf_items (alloc (L'\<lparr>count := count L' + 1\<rparr>)) (blocks (L'\<lparr>count := count L' + 1\<rparr>)) ?ns'"
      using items L' by simp
  qed
  show ?thesis
  proof (cases xs rule: rev_cases)
    case Nil
    then have ft: "first L = t" "prev nt = NULL" using t by simp_all
    define h where "h = (nodes L)(?a \<mapsto> \<lparr>prev = NULL, next = NULL, elem = ?p\<rparr>,
       ?a \<mapsto> \<lparr>prev = NULL, next = t, elem = ?p\<rparr>, t \<mapsto> nt\<lparr>prev := ?a\<rparr>)"
    define L' where "L' = ?L0\<lparr>first := ?a, nodes := h\<rparr>"
    have run: "list_add_loop f ?L0 ?a e t = Some L'"
      using t ft at stop a
      by (subst list_add_loop.simps)
         (simp add: L'_def h_def get_elem_def get_prev_def set_prev_def set_next_def deref_def)
    have "dlseg h NULL ?a ((?a, ?p) # (t, y) # ys) NULL"
      using t ft at a by (simp add: h_def)
    then have "wf_list (L'\<lparr>count := count L' + 1\<rparr>) ?ns'"
      using Nil by (intro rest) (simp_all add: L'_def)
    then show ?thesis using run by (simp add: L'_def)
  next
    case (snoc xs' uw)
    obtain u w where uw: "uw = (u, w)" by (cases uw)
    from t(1) snoc uw obtain nu where u: "u \<noteq> NULL" "nodes L u = Some nu"
      "dlseg (nodes L) NULL (first L) (xs' @ [(u, w)]) t"
      by (auto simp: dlseg_snoc)
    have pt: "prev nt = u" using t(4) snoc uw by simp
    have ut: "u \<noteq> t" "t \<noteq> u" "u \<noteq> ?a" "?a \<noteq> u" "u \<notin> fst ` set xs'" "u \<notin> fst ` set ys"
      "t \<notin> fst ` set xs'" "?a \<notin> fst ` set xs'"
      using a dist snoc uw by auto
    define h where "h = (nodes L)(?a \<mapsto> \<lparr>prev = NULL, next = NULL, elem = ?p\<rparr>,
        u \<mapsto> nu\<lparr>next := ?a\<rparr>, ?a \<mapsto> \<lparr>prev = u, next = NULL, elem = ?p\<rparr>,
        ?a \<mapsto> \<lparr>prev = u, next = t, elem = ?p\<rparr>, t \<mapsto> nt\<lparr>prev := ?a\<rparr>)"
    define L' where "L' = ?L0\<lparr>nodes := h\<rparr>"
    have run: "list_add_loop f ?L0 ?a e t = Some L'"
      using t pt u at ut stop a
      by (subst list_add_loop.simps)
         (simp add: L'_def h_def get_elem_def get_prev_def set_prev_def set_next_def deref_def)
    have "dlseg ((nodes L)(u \<mapsto> nu\<lparr>next := ?a\<rparr>)) NULL (first L) (xs' @ [(u, w)]) ?a"
      using u ut by (intro dlseg_set_next_last) auto
    then have 1: "dlseg h NULL (first L) (xs' @ [(u, w)]) ?a"
      using ut at by (simp add: h_def)
    have 2: "dlseg h u ?a ((?a, ?p) # (t, y) # ys) NULL"
      using t ut at a by (simp add: h_def)
    have "dlseg h NULL (first L) ((xs' @ [(u, w)]) @ (?a, ?p) # (t, y) # ys) NULL"
      by (subst dlseg_append) (use 1 2 in auto)
    then have "wf_list (L'\<lparr>count := count L' + 1\<rparr>) ?ns'"
      using snoc uw by (intro rest) (simp_all add: L'_def)
    then show ?thesis using run by (simp add: L'_def)
  qed
qed


lemma list_add_ok:
  assumes wf: "wf_list L ns" and e: "e \<noteq> NULL" and ok: "alloc_ok L r"
  shows "\<exists>L'. list_add L e sz r = Some (0, L') \<and> wf_list L' (placed L e sz r ns)
           \<and> alloc L' = alloc L \<and> sort_fn L' = sort_fn L"
proof (cases "ns = []")
  case True
  let ?a = "fst r" and ?p = "stored L e r" and ?L0 = "created L e sz r"
  note facts = alloc_ok_facts [OF wf e ok]
  note a = facts(1,2) and len = facts(3)
  have items: "wf_items (alloc L) (blocks ?L0) ([(?a, ?p)])"
    using created_items [of L "[]" "[]", OF _ e ok] wf True by simp
  have f: "first L = NULL" using wf_listD(1) [OF wf] True by simp
  define L' where "L' = ?L0\<lparr>last_p := ?a, first := ?a, curr := ?a, count := count L + 1\<rparr>"
  have run: "list_add L e sz r = Some (0, L')"
    using e ok f a by (simp add: list_add_def list_create_element_ok L'_def)
  have "wf_list L' [(?a, ?p)]"
  proof (rule wf_listI)
    show "dlseg (nodes L') NULL (first L') [(?a, ?p)] NULL"
      using a by (simp add: L'_def)
    show "last_p L' = (if [(?a, ?p)] = [] then NULL else fst (last [(?a, ?p)]))"
      by (simp add: L'_def)
    show "unat (count L') = length [(?a, ?p)]" using len True by (simp add: L'_def)
    show "curr L' = NULL \<or> curr L' \<in> fst ` set [(?a, ?p)]" by (simp add: L'_def)
    show "wf_items (alloc L') (blocks L') [(?a, ?p)]" using items by (simp add: L'_def)
  qed
  moreover have "placed L e sz r ns = [(?a, ?p)]"
    using True by (simp add: placed_def split: option.splits)
  ultimately show ?thesis using run by (simp add: L'_def)
next
  case False
  let ?a = "fst r" and ?p = "stored L e r" and ?L0 = "created L e sz r"
  note facts = alloc_ok_facts [OF wf e ok]
  note a = facts(1,2)
  note seg = wf_listD(1) [OF wf]
  have f: "first L \<noteq> NULL" using seg False by (cases ns) auto
  note tail = link_tail_ok [OF wf False e ok, of sz]
  show ?thesis
  proof (cases "sort_fn L")
    case None
    from tail obtain L' where
      L': "do {
            L1 \<leftarrow> set_next (last_p ?L0) ?a ?L0;
            L2 \<leftarrow> set_prev ?a (last_p L1) L1;
            Some (L2\<lparr>last_p := ?a\<rparr>)
          } = Some L'" "wf_list (L'\<lparr>count := count L' + 1\<rparr>) (ns @ [(?a, ?p)])"
       "alloc L' = alloc L" "sort_fn L' = sort_fn L"
      by blast
    have "list_add L e sz r = Some (0, L'\<lparr>count := count L' + 1\<rparr>)"
      using e ok f a L'(1) None by (simp add: list_add_def list_create_element_ok)
    moreover have "placed L e sz r ns = ns @ [(?a, ?p)]"
      using None by (simp add: placed_def)
    ultimately show ?thesis using L' by simp
  next
    case (Some f')
    let ?P = "keeps_before L e sz r f'"
    let ?xs = "takeWhile ?P ns" and ?ys = "dropWhile ?P ns"
    have pl: "placed L e sz r ns = ?xs @ (?a, ?p) # ?ys"
      using Some by (simp add: placed_def)
    have ns: "ns = ?xs @ ?ys" by simp
    have seg0: "dlseg (nodes ?L0) NULL (first ?L0) (?xs @ ?ys) NULL"
      using seg a by simp
    then obtain m where m: "dlseg (nodes ?L0) NULL (first ?L0) ?xs m"
      "dlseg (nodes ?L0) (last (NULL # map fst ?xs)) m ?ys NULL"
      unfolding dlseg_append by blast
    have "\<forall>(b, x) \<in> set ?xs. f' (list_state.truncate ?L0) x e"
      using set_takeWhileD [of _ ?P ns] by (auto simp: keeps_before_def)
    from list_add_loop_skip [where f = f' and e = e and L = "?L0", OF m(1) this]
    have skip: "list_add_loop f' ?L0 ?a e (first L) = list_add_loop f' ?L0 ?a e m" by simp
    have start: "list_add L e sz r =
        do { L3 \<leftarrow> list_add_loop f' ?L0 ?a e m; Some (0, L3\<lparr>count := count L3 + 1\<rparr>) }"
      using e ok f a Some skip by (simp add: list_add_def list_create_element_ok)
    show ?thesis
    proof (cases ?ys)
      case Nil
      have m0: "m = NULL" using m(2) [unfolded Nil] by simp
      from tail obtain L' where
        L': "do {
              L1 \<leftarrow> set_next (last_p ?L0) ?a ?L0;
              L2 \<leftarrow> set_prev ?a (last_p L1) L1;
              Some (L2\<lparr>last_p := ?a\<rparr>)
            } = Some L'" "wf_list (L'\<lparr>count := count L' + 1\<rparr>) (ns @ [(?a, ?p)])"
         "alloc L' = alloc L" "sort_fn L' = sort_fn L"
        by blast
      have "list_add_loop f' ?L0 ?a e m = Some L'"
        unfolding m0 by (subst list_add_loop.simps) (use L'(1) in simp)
      then have "list_add L e sz r = Some (0, L'\<lparr>count := count L' + 1\<rparr>)"
        using start by simp
      moreover have "placed L e sz r ns = ns @ [(?a, ?p)]"
        using pl Nil ns by (metis append_Nil2)
      ultimately show ?thesis using L' by simp
    next
      case (Cons ty ys')
      obtain t y where ty: "ty = (t, y)" by (cases ty)
      have "\<not> ?P (hd ?ys)" using Cons hd_dropWhile [of ?P ns] by simp
      then have stop: "\<not> f' (list_state.truncate ?L0) y e"
        using Cons ty by (simp add: keeps_before_def)
      have mt: "m = t" using m(2) [unfolded Cons ty] by simp
      have wf': "wf_list L (?xs @ (t, y) # ys')" using wf ns Cons ty by metis
      from list_add_loop_insert [where f = f' and sz = sz, OF wf' e ok stop] obtain L' where
        L': "list_add_loop f' ?L0 ?a e t = Some L'"
          "wf_list (L'\<lparr>count := count L' + 1\<rparr>) (?xs @ (?a, ?p) # (t, y) # ys')"
          "alloc L' = alloc L" "sort_fn L' = sort_fn L"
        by blast
      have "list_add L e sz r = Some (0, L'\<lparr>count := count L' + 1\<rparr>)"
        using start L'(1) mt by simp
      moreover have "placed L e sz r ns = ?xs @ (?a, ?p) # (t, y) # ys'"
        using pl Cons ty by simp
      ultimately show ?thesis using L' by simp
    qed
  qed
qed


lemma count_decr: "unat (c :: size_t) = Suc n \<Longrightarrow> unat (c - 1) = n"
  using unat_minus_one [of c] by (cases "c = 0") auto

lemma list_remove_search_skip:
  "dlseg (nodes L) pr p xs m \<Longrightarrow> e \<notin> snd ` set xs \<Longrightarrow>
   list_remove_search L e p = list_remove_search L e m"
proof (induction xs arbitrary: pr p)
  case Nil
  then show ?case by simp
next
  case (Cons bx xs)
  obtain b x where bx: "bx = (b, x)" by (cases bx)
  from Cons.prems(1) bx obtain n where n: "p = b" "b \<noteq> NULL" "nodes L b = Some n" "elem n = x"
    "dlseg (nodes L) b (next n) xs m"
    by (auto split: option.splits)
  have "x \<noteq> e" using Cons.prems(2) bx by auto
  then have "list_remove_search L e p = list_remove_search L e (next n)"
    using n
    by (subst list_remove_search.simps) (simp add: get_elem_def get_next_def deref_def)
  also have "\<dots> = list_remove_search L e m"
    using Cons.IH [OF n(5)] Cons.prems(2) by simp
  finally show ?case .
qed

lemma list_remove_absent:
  assumes wf: "wf_list L ns" and e: "e \<notin> snd ` set ns"
  shows "list_remove L e = Some (NULL, L)"
proof -
  have "list_remove_search L e (first L) = list_remove_search L e NULL"
    by (rule list_remove_search_skip [OF wf_listD(1) [OF wf] e])
  also have "\<dots> = Some NULL" by (subst list_remove_search.simps) simp
  finally show ?thesis by (simp add: list_remove_def)
qed

lemma list_remove_search_found:
  assumes wf: "wf_list L (xs @ (t, e) # ys)" and e: "e \<notin> snd ` set xs"
  shows "list_remove_search L e (first L) = Some t"
proof -
  from wf_listD(1) [OF wf] obtain nt where t: "dlseg (nodes L) NULL (first L) xs t" "t \<noteq> NULL"
    "nodes L t = Some nt" "elem nt = e"
    by (auto simp: dlseg_append split: option.splits)
  have "list_remove_search L e (first L) = list_remove_search L e t"
    by (rule list_remove_search_skip [OF t(1) e])
  also have "\<dots> = Some t"
    using t by (subst list_remove_search.simps) (simp add: get_elem_def deref_def)
  finally show ?thesis .
qed


lemma list_remove_present:
  assumes wf: "wf_list L (xs @ (t, e) # ys)" and e: "e \<notin> snd ` set xs"
  shows "\<exists>L'. list_remove L e = Some ((if ys = [] then NULL else fst (hd ys)), L') \<and>
           wf_list L' (xs @ ys) \<and> nodes L' t = None \<and>
           blocks L' = (if alloc L then (blocks L)(e := None) else blocks L) \<and>
           count L' = count L - 1 \<and> alloc L' = alloc L \<and> sort_fn L' = sort_fn L \<and>
           curr L' = (if curr L = t then last (NULL # map fst xs) else curr L)"
proof -
  let ?ns = "xs @ (t, e) # ys" and ?pv = "last (NULL # map fst xs)"
  let ?B = "if alloc L then (blocks L)(e := None) else blocks L"
  let ?C = "if curr L = t then ?pv else curr L"
  note seg = wf_listD(1) [OF wf] and dist = wf_listD(2) [OF wf] and lst = wf_listD(3) [OF wf]
    and cur = wf_listD(5) [OF wf]
  have found: "list_remove_search L e (first L) = Some t"
    by (rule list_remove_search_found [OF wf e])
  from seg obtain nt where t: "dlseg (nodes L) NULL (first L) xs t" "t \<noteq> NULL"
    "nodes L t = Some nt" "prev nt = ?pv" "elem nt = e"
    "dlseg (nodes L) t (next nt) ys NULL"
    by (auto simp: dlseg_append split: option.splits)
  have e0: "e \<noteq> NULL" "alloc L \<Longrightarrow> e \<in> dom (blocks L)"
    using wf_listD(6) [OF wf] wf_listD(8) [OF wf] by auto
  have len: "unat (count L - 1) = length (xs @ ys)"
    using wf_listD(4) [OF wf] by (intro count_decr) simp
  have items: "wf_items (alloc L) ?B (xs @ ys)"
    by (rule wf_items_remove [OF wf_listD(9) [OF wf]]) auto
  have td: "t \<in> dom (nodes L)" using t(3) by auto
  have tn: "t \<notin> fst ` set xs" "t \<notin> fst ` set ys" using dist by auto
  have fr: "free_block e M = Some (M\<lparr>blocks := (blocks M)(e := None)\<rparr>)"
    if "alloc L" "blocks M = blocks L" for M :: list_t
    using e0 that by (simp add: free_block_def)
  have rest: "wf_list L' (xs @ ys)"
    if L': "last_p L' = (if ys = [] then ?pv else last_p L)" "curr L' = ?C"
      "count L' = count L - 1" "alloc L' = alloc L" "blocks L' = ?B"
      and h: "dlseg (nodes L') NULL (first L') (xs @ ys) NULL" for L'
  proof (rule wf_listI)
    show "dlseg (nodes L') NULL (first L') (xs @ ys) NULL" by (rule h)
    show "last_p L' = (if xs @ ys = [] then NULL else fst (last (xs @ ys)))"
      using lst L'(1) by (cases xs rule: rev_cases) auto
    show "unat (count L') = length (xs @ ys)" using len L'(3) by simp
    show "curr L' = NULL \<or> curr L' \<in> fst ` set (xs @ ys)"
      using cur L'(2) by (cases xs rule: rev_cases) auto
    show "wf_items (alloc L') (blocks L') (xs @ ys)" using items L'(4,5) by simp
  qed
  show ?thesis
  proof (cases xs rule: rev_cases)
    case Nil
    then have ft: "first L = t" "prev nt = NULL" using t by simp_all
    show ?thesis
    proof (cases ys)
      case Nil2: Nil
      then have lt: "last_p L = t" "next nt = NULL" using lst t(6) by simp_all
      define L' where "L' = L\<lparr>first := NULL, last_p := NULL, curr := ?C, count := count L - 1,
        blocks := ?B, nodes := (nodes L)(t := None)\<rparr>"
      have run: "list_remove L e = Some (NULL, L')"
        using found t td ft lt e0 fr
        by (simp add: list_remove_def L'_def Let_def eq_commute [of t "curr L"] get_next_def get_prev_def get_elem_def deref_def
              free_node_def free_block_def)
      have "wf_list L' (xs @ ys)"
        using Nil Nil2 by (intro rest) (simp_all add: L'_def)
      then show ?thesis using run Nil Nil2 by (simp add: L'_def)
    next
      case (Cons gz ys')
      obtain g z where gz: "gz = (g, z)" by (cases gz)
      from t(6) Cons gz obtain ng where g: "next nt = g" "g \<noteq> NULL" "nodes L g = Some ng"
        "prev ng = t" "elem ng = z" "dlseg (nodes L) g (next ng) ys' NULL"
        by (auto split: option.splits)
      have gt: "g \<noteq> t" "t \<noteq> g" "g \<notin> fst ` set ys'" "t \<notin> fst ` set ys'"
        using dist Cons gz by auto
      have lt: "last_p L \<noteq> t" "t \<noteq> last_p L"
        using lst dist Cons gz by (auto split: if_splits)
      define L' where "L' = L\<lparr>first := g, curr := ?C, count := count L - 1,
        blocks := ?B, nodes := (nodes L)(g \<mapsto> ng\<lparr>prev := NULL\<rparr>, t := None)\<rparr>"
      have run: "list_remove L e = Some (g, L')"
        using found t td ft lt e0 g gt
        by (simp add: list_remove_def L'_def Let_def eq_commute [of t "curr L"] get_next_def get_prev_def get_elem_def deref_def
              free_node_def free_block_def set_prev_def)
      have "dlseg (nodes L') NULL (first L') (xs @ ys) NULL"
        using Nil Cons gz g gt by (simp add: L'_def)
      then have "wf_list L' (xs @ ys)"
        using Nil Cons by (intro rest) (simp_all add: L'_def)
      then show ?thesis using run Nil Cons gz by (simp add: L'_def)
    qed
  next
    case (snoc xs' uw)
    obtain u w where uw: "uw = (u, w)" by (cases uw)
    from t(1) snoc uw obtain nu where u: "u \<noteq> NULL" "nodes L u = Some nu"
      "dlseg (nodes L) NULL (first L) (xs' @ [(u, w)]) t"
      by (auto simp: dlseg_snoc)
    have pt: "prev nt = u" using t(4) snoc uw by simp
    have ut: "u \<noteq> t" "t \<noteq> u" "u \<notin> fst ` set xs'" "u \<notin> fst ` set ys" "t \<notin> fst ` set xs'"
      using dist snoc uw by auto
    have ft: "first L \<noteq> t" "t \<noteq> first L"
      using u(3) ut by (cases xs'; auto)+
    show ?thesis
    proof (cases ys)
      case Nil
      then have lt: "last_p L = t" "next nt = NULL" using lst t(6) by simp_all
      define L' where "L' = L\<lparr>last_p := u, curr := ?C, count := count L - 1,
        blocks := ?B, nodes := (nodes L)(u \<mapsto> nu\<lparr>next := NULL\<rparr>, t := None)\<rparr>"
      have run: "list_remove L e = Some (NULL, L')"
        using found t td ft lt e0 u ut pt
        by (simp add: list_remove_def L'_def Let_def eq_commute [of t "curr L"] get_next_def get_prev_def get_elem_def deref_def
              free_node_def free_block_def set_next_def)
      have "dlseg ((nodes L)(u \<mapsto> nu\<lparr>next := NULL\<rparr>)) NULL (first L) (xs' @ [(u, w)]) NULL"
        using u ut by (intro dlseg_set_next_last) auto
      then have "dlseg (nodes L') NULL (first L') (xs @ ys) NULL"
        using Nil snoc uw ut by (simp add: L'_def)
      then have "wf_list L' (xs @ ys)"
        using Nil snoc uw pt t(4) by (intro rest) (simp_all add: L'_def)
      then show ?thesis using run Nil snoc uw pt t(4) by (simp add: L'_def)
    next
      case (Cons gz ys')
      obtain g z where gz: "gz = (g, z)" by (cases gz)
      from t(6) Cons gz obtain ng where g: "next nt = g" "g \<noteq> NULL" "nodes L g = Some ng"
        "prev ng = t" "elem ng = z" "dlseg (nodes L) g (next ng) ys' NULL"
        by (auto split: option.splits)
      have gt: "g \<noteq> t" "t \<noteq> g" "g \<notin> fst ` set ys'" "t \<notin> fst ` set ys'"
        "g \<noteq> u" "u \<noteq> g" "g \<notin> fst ` set xs'" "u \<notin> fst ` set ys'"
        using dist Cons gz snoc uw by auto
      have lt: "last_p L \<noteq> t" "t \<noteq> last_p L"
        using lst dist Cons gz by (auto split: if_splits)
      define h where "h = (nodes L)(u \<mapsto> nu\<lparr>next := g\<rparr>, g \<mapsto> ng\<lparr>prev := u\<rparr>, t := None)"
      define L' where "L' = L\<lparr>curr := ?C, count := count L - 1, blocks := ?B, nodes := h\<rparr>"
      have run: "list_remove L e = Some (g, L')"
        using found t td ft lt e0 g gt u ut pt
        by (simp add: list_remove_def L'_def h_def Let_def eq_commute [of t "curr L"] get_next_def get_prev_def get_elem_def deref_def
              free_node_def free_block_def set_prev_def set_next_def)
      have "dlseg ((nodes L)(u \<mapsto> nu\<lparr>next := g\<rparr>)) NULL (first L) (xs' @ [(u, w)]) g"
        using u ut by (intro dlseg_set_next_last) auto
      then have 1: "dlseg h NULL (first L) (xs' @ [(u, w)]) g"
        using ut gt by (simp add: h_def)
      have 2: "dlseg h u g ((g, z) # ys') NULL"
        using g gt ut by (simp add: h_def)
      have "dlseg h NULL (first L) ((xs' @ [(u, w)]) @ (g, z) # ys') NULL"
        by (subst dlseg_append) (use 1 2 in auto)
      then have "wf_list L' (xs @ ys)"
        using Cons gz snoc uw pt t(4) by (intro rest) (simp_all add: L'_def)
      then show ?thesis using run Cons gz snoc uw pt t(4) by (simp add: L'_def h_def)
    qed
  qed
qed


lemma wf_list_empty: "wf_list L [] \<Longrightarrow> first L = NULL \<and> last_p L = NULL \<and> curr L = NULL \<and> count L = 0"
  by (auto simp: wf_list_def unat_eq_zero)

lemma list_remove_head_empty: "wf_list L [] \<Longrightarrow> list_remove_head L = Some (NULL, L)"
  by (drule wf_list_empty) (simp add: list_remove_head_def)

lemma list_remove_tail_empty: "wf_list L [] \<Longrightarrow> list_remove_tail L = Some (NULL, L)"
  by (drule wf_list_empty) (simp add: list_remove_tail_def)

lemma list_remove_head_ok:
  assumes wf: "wf_list L ((f, x) # ys)"
  shows "\<exists>L'. list_remove_head L = Some (x, L') \<and> wf_list L' ys \<and> nodes L' f = None \<and>
           blocks L' = blocks L \<and> count L' = count L - 1 \<and>
           alloc L' = alloc L \<and> sort_fn L' = sort_fn L \<and>
           curr L' = (if curr L = f then (if ys = [] then NULL else fst (hd ys)) else curr L)"
proof -
  let ?C = "if curr L = f then (if ys = [] then NULL else fst (hd ys)) else curr L"
  note seg = wf_listD(1) [OF wf] and dist = wf_listD(2) [OF wf] and lst = wf_listD(3) [OF wf]
    and cur = wf_listD(5) [OF wf]
  from seg obtain nf where f: "first L = f" "f \<noteq> NULL" "nodes L f = Some nf" "prev nf = NULL"
    "elem nf = x" "dlseg (nodes L) f (next nf) ys NULL"
    by (auto split: option.splits)
  have fd: "f \<in> dom (nodes L)" using f(3) by auto
  have len: "unat (count L - 1) = length ys"
    using wf_listD(4) [OF wf] by (intro count_decr) simp
  have items: "wf_items (alloc L) (blocks L) ([] @ ys)"
    by (rule wf_items_remove [of _ _ "[]" f x]) (use wf_listD(9) [OF wf] in auto)
  have rest: "wf_list L' ys"
    if L': "last_p L' = (if ys = [] then NULL else last_p L)" "curr L' = ?C"
      "count L' = count L - 1" "alloc L' = alloc L" "blocks L' = blocks L"
      and h: "dlseg (nodes L') NULL (first L') ys NULL" for L'
  proof (rule wf_listI)
    show "dlseg (nodes L') NULL (first L') ys NULL" by (rule h)
    show "last_p L' = (if ys = [] then NULL else fst (last ys))" using lst L'(1) by auto
    show "unat (count L') = length ys" using len L'(3) by simp
    show "curr L' = NULL \<or> curr L' \<in> fst ` set ys" using cur L'(2) by (cases ys) auto
    show "wf_items (alloc L') (blocks L') ys" using items L'(4,5) by simp
  qed
  show ?thesis
  proof (cases ys)
    case Nil
    then have n0: "next nf = NULL" using f(6) by simp
    define L' where "L' = L\<lparr>curr := ?C, last_p := NULL, first := NULL, count := count L - 1,
        nodes := (nodes L)(f := None)\<rparr>"
    have run: "list_remove_head L = Some (x, L')"
      using f fd n0 Nil
      by (simp add: list_remove_head_def L'_def Let_def get_next_def get_elem_def deref_def
            free_node_def)
    have "wf_list L' ys" using Nil by (intro rest) (simp_all add: L'_def)
    then show ?thesis using run by (simp add: L'_def)
  next
    case (Cons gz ys')
    obtain g z where gz: "gz = (g, z)" by (cases gz)
    from f(6) Cons gz obtain ng where g: "next nf = g" "g \<noteq> NULL" "nodes L g = Some ng"
      "prev ng = f" "elem ng = z" "dlseg (nodes L) g (next ng) ys' NULL"
      by (auto split: option.splits)
    have gf: "g \<noteq> f" "f \<noteq> g" "g \<notin> fst ` set ys'" "f \<notin> fst ` set ys'"
      using dist Cons gz by auto
    define L' where "L' = L\<lparr>curr := ?C, first := g, count := count L - 1,
        nodes := (nodes L)(g \<mapsto> ng\<lparr>prev := NULL\<rparr>, f := None)\<rparr>"
    have run: "list_remove_head L = Some (x, L')"
      using f fd g gf Cons gz
      by (simp add: list_remove_head_def L'_def Let_def get_next_def get_elem_def deref_def
            free_node_def set_prev_def)
    have "dlseg (nodes L') NULL (first L') ys NULL"
      using Cons gz g gf by (simp add: L'_def)
    then have "wf_list L' ys" using Cons by (intro rest) (simp_all add: L'_def)
    then show ?thesis using run by (simp add: L'_def)
  qed
qed

lemma list_remove_tail_ok:
  assumes wf: "wf_list L (xs @ [(l, y)])"
  shows "\<exists>L'. list_remove_tail L = Some (y, L') \<and> wf_list L' xs \<and> nodes L' l = None \<and>
           blocks L' = blocks L \<and> count L' = count L - 1 \<and>
           alloc L' = alloc L \<and> sort_fn L' = sort_fn L \<and>
           curr L' = (if curr L = l then last (NULL # map fst xs) else curr L)"
proof -
  let ?pv = "last (NULL # map fst xs)"
  let ?C = "if curr L = l then ?pv else curr L"
  note seg = wf_listD(1) [OF wf] and dist = wf_listD(2) [OF wf] and lst = wf_listD(3) [OF wf]
    and cur = wf_listD(5) [OF wf]
  from seg obtain nl where l: "dlseg (nodes L) NULL (first L) xs l" "l \<noteq> NULL"
    "nodes L l = Some nl" "prev nl = ?pv" "elem nl = y" "next nl = NULL"
    by (auto simp: dlseg_snoc)
  have ll: "last_p L = l" using lst by simp
  have ld: "l \<in> dom (nodes L)" using l(3) by auto
  have len: "unat (count L - 1) = length xs"
    using wf_listD(4) [OF wf] by (intro count_decr) simp
  have items: "wf_items (alloc L) (blocks L) (xs @ [])"
    by (rule wf_items_remove [of _ _ xs l y]) (use wf_listD(9) [OF wf] in auto)
  have rest: "wf_list L' xs"
    if L': "last_p L' = ?pv" "curr L' = ?C"
      "count L' = count L - 1" "alloc L' = alloc L" "blocks L' = blocks L"
      and h: "dlseg (nodes L') NULL (first L') xs NULL" for L'
  proof (rule wf_listI)
    show "dlseg (nodes L') NULL (first L') xs NULL" by (rule h)
    show "last_p L' = (if xs = [] then NULL else fst (last xs))"
      using L'(1) by (simp add: last_map)
    show "unat (count L') = length xs" using len L'(3) by simp
    show "curr L' = NULL \<or> curr L' \<in> fst ` set xs"
      using cur L'(2) by (cases xs rule: rev_cases) auto
    show "wf_items (alloc L') (blocks L') xs" using items L'(4,5) by simp
  qed
  show ?thesis
  proof (cases xs rule: rev_cases)
    case Nil
    then have p0: "prev nl = NULL" "first L = l" using l by simp_all
    define L' where "L' = L\<lparr>curr := ?C, last_p := NULL, first := NULL, count := count L - 1,
        nodes := (nodes L)(l := None)\<rparr>"
    have run: "list_remove_tail L = Some (y, L')"
      using l ll ld p0 Nil
      by (simp add: list_remove_tail_def L'_def Let_def get_prev_def get_elem_def deref_def
            free_node_def)
    have "wf_list L' xs" using Nil by (intro rest) (simp_all add: L'_def)
    then show ?thesis using run by (simp add: L'_def)
  next
    case (snoc xs' uw)
    obtain u w where uw: "uw = (u, w)" by (cases uw)
    from l(1) snoc uw obtain nu where u: "u \<noteq> NULL" "nodes L u = Some nu"
      "dlseg (nodes L) NULL (first L) (xs' @ [(u, w)]) l"
      by (auto simp: dlseg_snoc)
    have pl: "prev nl = u" using l(4) snoc uw by simp
    have ul: "u \<noteq> l" "l \<noteq> u" "u \<notin> fst ` set xs'" "l \<notin> fst ` set xs'"
      using dist snoc uw by auto
    define L' where "L' = L\<lparr>curr := ?C, last_p := u, count := count L - 1,
        nodes := (nodes L)(u \<mapsto> nu\<lparr>next := NULL\<rparr>, l := None)\<rparr>"
    have run: "list_remove_tail L = Some (y, L')"
      using l ll ld pl u ul snoc uw
      by (simp add: list_remove_tail_def L'_def Let_def get_prev_def get_elem_def deref_def
            free_node_def set_next_def)
    have "dlseg ((nodes L)(u \<mapsto> nu\<lparr>next := NULL\<rparr>)) NULL (first L) (xs' @ [(u, w)]) NULL"
      using u ul by (intro dlseg_set_next_last) auto
    then have "dlseg (nodes L') NULL (first L') xs NULL"
      using snoc uw ul by (simp add: L'_def)
    then have "wf_list L' xs" using snoc uw pl l(4) by (intro rest) (simp_all add: L'_def)
    then show ?thesis using run snoc uw by (simp add: L'_def)
  qed
qed


lemma wf_list_curr:
  "wf_list L ns \<Longrightarrow> c = NULL \<or> c \<in> fst ` set ns \<Longrightarrow> wf_list (L\<lparr>curr := c\<rparr>) ns"
  by (simp add: wf_list_def)

lemma wf_first: "wf_list L ns \<Longrightarrow> first L = (if ns = [] then NULL else fst (hd ns))"
  by (cases ns) (auto simp: wf_list_def)

lemma wf_elem:
  "wf_list L ns \<Longrightarrow> (a, x) \<in> set ns \<Longrightarrow> get_elem L a = Some x"
  using dlseg_live [of "nodes L" NULL "first L" ns NULL a x]
  by (auto simp: wf_list_def get_elem_def deref_def)

lemma get_element_ok:
  assumes wf: "wf_list L ns"
  shows "get_element L = Some ((if curr L = NULL then NULL else the (map_of ns (curr L))), L)"
proof (cases "curr L = NULL")
  case True
  then show ?thesis by (simp add: get_element_def)
next
  case False
  then have "curr L \<in> fst ` set ns" using wf_listD(5) [OF wf] by simp
  then obtain x where x: "(curr L, x) \<in> set ns" by auto
  then have "map_of ns (curr L) = Some x" using wf_listD(2) [OF wf] by simp
  then show ?thesis using False wf_elem [OF wf x] by (simp add: get_element_def)
qed

lemma list_get_head_ok:
  assumes wf: "wf_list L ns"
  shows "list_get_head L = Some ((if ns = [] then NULL else snd (hd ns)), L\<lparr>curr := first L\<rparr>)"
    and "wf_list (L\<lparr>curr := first L\<rparr>) ns"
proof -
  show wf': "wf_list (L\<lparr>curr := first L\<rparr>) ns"
    using wf_first [OF wf] by (intro wf_list_curr [OF wf]) simp
  have "ns \<noteq> [] \<Longrightarrow> first L \<noteq> NULL \<and> map_of ns (first L) = Some (snd (hd ns))"
    using wf_listD(1) [OF wf] by (cases ns) auto
  then show "list_get_head L = Some ((if ns = [] then NULL else snd (hd ns)), L\<lparr>curr := first L\<rparr>)"
    using get_element_ok [OF wf'] wf_first [OF wf] by (auto simp: list_get_head_def)
qed

lemma list_get_tail_ok:
  assumes wf: "wf_list L ns"
  shows "list_get_tail L = Some ((if ns = [] then NULL else snd (last ns)), L\<lparr>curr := last_p L\<rparr>)"
    and "wf_list (L\<lparr>curr := last_p L\<rparr>) ns"
proof -
  note lst = wf_listD(3) [OF wf]
  show wf': "wf_list (L\<lparr>curr := last_p L\<rparr>) ns"
    using lst by (intro wf_list_curr [OF wf]) simp
  have "ns \<noteq> [] \<Longrightarrow> last_p L \<noteq> NULL \<and> map_of ns (last_p L) = Some (snd (last ns))"
    using lst dlseg_live [OF wf_listD(1) [OF wf], of "fst (last ns)" "snd (last ns)"]
      wf_listD(2) [OF wf]
    by simp
  then show "list_get_tail L = Some ((if ns = [] then NULL else snd (last ns)), L\<lparr>curr := last_p L\<rparr>)"
    using get_element_ok [OF wf'] lst by (auto simp: list_get_tail_def)
qed

text \<open>The neighbours of a node of the chain.\<close>

lemma wf_neighbours:
  assumes wf: "wf_list L (xs @ (t, y) # ys)"
  shows "get_prev L t = Some (last (NULL # map fst xs))"
    and "get_next L t = Some (if ys = [] then NULL else fst (hd ys))"
    and "t \<noteq> NULL"
proof -
  from wf_listD(1) [OF wf] obtain nt where t: "t \<noteq> NULL"
    "nodes L t = Some nt" "prev nt = last (NULL # map fst xs)"
    "dlseg (nodes L) t (next nt) ys NULL"
    by (auto simp: dlseg_append split: option.splits)
  show "t \<noteq> NULL" by (rule t(1))
  show "get_prev L t = Some (last (NULL # map fst xs))"
    using t by (simp add: get_prev_def deref_def)
  have "next nt = (if ys = [] then NULL else fst (hd ys))"
    using t(4) by (cases ys) auto
  then show "get_next L t = Some (if ys = [] then NULL else fst (hd ys))"
    using t by (simp add: get_next_def deref_def)
qed

lemma list_get_next_null:
  "curr L = NULL \<Longrightarrow> list_get_next L = Some (NULL, L)"
  by (simp add: list_get_next_def get_element_def)

lemma list_get_prev_null:
  "curr L = NULL \<Longrightarrow> list_get_prev L = Some (NULL, L)"
  by (simp add: list_get_prev_def get_element_def)

lemma list_get_next_ok:
  assumes wf: "wf_list L (xs @ (t, y) # ys)" and c: "curr L = t"
  shows "list_get_next L = Some ((if ys = [] then NULL else snd (hd ys)),
            L\<lparr>curr := (if ys = [] then NULL else fst (hd ys))\<rparr>)"
    and "wf_list (L\<lparr>curr := (if ys = [] then NULL else fst (hd ys))\<rparr>) (xs @ (t, y) # ys)"
proof -
  let ?c = "if ys = [] then NULL else fst (hd ys)"
  show wf': "wf_list (L\<lparr>curr := ?c\<rparr>) (xs @ (t, y) # ys)"
    by (rule wf_list_curr [OF wf]) (cases ys; simp)
  have "ys \<noteq> [] \<Longrightarrow> ?c \<noteq> NULL \<and> map_of (xs @ (t, y) # ys) ?c = Some (snd (hd ys))"
    using dlseg_live [OF wf_listD(1) [OF wf], of "fst (hd ys)" "snd (hd ys)"]
      map_of_is_SomeI [OF wf_listD(2) [OF wf], of "fst (hd ys)" "snd (hd ys)"]
    by (cases ys) simp_all
  then show "list_get_next L = Some ((if ys = [] then NULL else snd (hd ys)), L\<lparr>curr := ?c\<rparr>)"
    using get_element_ok [OF wf'] wf_neighbours [OF wf] c
    by (auto simp: list_get_next_def)
qed

lemma list_get_prev_ok:
  assumes wf: "wf_list L (xs @ (t, y) # ys)" and c: "curr L = t"
  shows "list_get_prev L = Some ((if xs = [] then NULL else snd (last xs)),
            L\<lparr>curr := last (NULL # map fst xs)\<rparr>)"
    and "wf_list (L\<lparr>curr := last (NULL # map fst xs)\<rparr>) (xs @ (t, y) # ys)"
proof -
  let ?c = "last (NULL # map fst xs)"
  show wf': "wf_list (L\<lparr>curr := ?c\<rparr>) (xs @ (t, y) # ys)"
    by (rule wf_list_curr [OF wf]) (cases xs rule: rev_cases; simp)
  have "xs \<noteq> [] \<Longrightarrow> ?c \<noteq> NULL \<and> map_of (xs @ (t, y) # ys) ?c = Some (snd (last xs))"
    using dlseg_live [OF wf_listD(1) [OF wf], of "fst (last xs)" "snd (last xs)"]
      map_of_is_SomeI [OF wf_listD(2) [OF wf], of "fst (last xs)" "snd (last xs)"]
    by (cases xs rule: rev_cases) simp_all
  then show "list_get_prev L = Some ((if xs = [] then NULL else snd (last xs)), L\<lparr>curr := ?c\<rparr>)"
    using get_element_ok [OF wf'] wf_neighbours [OF wf] c
    by (auto simp: list_get_prev_def)
qed

lemma wf_list_create: "list_create m a s r = Some L \<Longrightarrow> wf_list L []"
  by (auto simp: list_create_def wf_list_def wf_items_def split: if_splits)

lemma split_first_occurrence:
  assumes "e \<in> snd ` set ns"
  shows "\<exists>xs t ys. ns = xs @ (t, e) # ys \<and> e \<notin> snd ` set xs"
proof -
  from assms have "e \<in> set (map snd ns)" by simp
  from split_list_first [OF this] obtain as bs where
    s: "map snd ns = as @ e # bs" "e \<notin> set as" by blast
  let ?xs = "take (length as) ns" and ?r = "drop (length as) ns"
  have 1: "map snd ?xs = as" using s(1) by (metis append_eq_conv_conj take_map)
  have 2: "map snd ?r = e # bs" using s(1) by (metis append_eq_conv_conj drop_map)
  then obtain t ys where r: "?r = (t, e) # ys" by (cases ?r) auto
  have "ns = ?xs @ (t, e) # ys" using r by (metis append_take_drop_id)
  moreover have "e \<notin> snd ` set ?xs" using 1 s(2) by (metis set_map)
  ultimately show ?thesis by blast
qed

text \<open>Every call that returns keeps the list well-formed.\<close>

lemma list_add_head_wf:
  assumes wf: "wf_list L ns" and run: "list_add_head L e sz r = Some (rc, L')"
  shows "\<exists>ns'. wf_list L' ns'"
proof (cases "e = NULL")
  case True
  then show ?thesis using run by (simp add: list_add_head_def list_create_element_assert)
next
  case e: False
  show ?thesis
  proof (cases "alloc_ok L r")
    case True
    from list_add_head_ok [OF wf e True, of sz] run show ?thesis by auto
  next
    case False
    then have "L' = L" using run e by (simp add: list_add_head_def list_create_element_fail)
    then show ?thesis using wf by blast
  qed
qed

lemma list_add_tail_wf:
  assumes wf: "wf_list L ns" and run: "list_add_tail L e sz r = Some (rc, L')"
  shows "\<exists>ns'. wf_list L' ns'"
proof (cases "e = NULL")
  case True
  then show ?thesis using run by (simp add: list_add_tail_def list_create_element_assert)
next
  case e: False
  show ?thesis
  proof (cases "alloc_ok L r")
    case True
    from list_add_tail_ok [OF wf e True, of sz] run show ?thesis by auto
  next
    case False
    then have "L' = L" using run e by (simp add: list_add_tail_def list_create_element_fail)
    then show ?thesis using wf by blast
  qed
qed

lemma list_add_wf:
  assumes wf: "wf_list L ns" and run: "list_add L e sz r = Some (rc, L')"
  shows "\<exists>ns'. wf_list L' ns'"
proof (cases "e = NULL")
  case True
  then show ?thesis using run by (simp add: list_add_def list_create_element_assert)
next
  case e: False
  show ?thesis
  proof (cases "alloc_ok L r")
    case True
    from list_add_ok [OF wf e True, of sz] run show ?thesis by auto
  next
    case False
    then have "L' = L" using run e by (simp add: list_add_def list_create_element_fail)
    then show ?thesis using wf by blast
  qed
qed

lemma split_node:
  assumes "c \<in> fst ` set ns"
  shows "\<exists>xs y ys. ns = xs @ (c, y) # ys"
proof -
  from assms obtain y where "(c, y) \<in> set ns" by auto
  then show ?thesis by (meson split_list)
qed

lemma list_get_next_wf:
  assumes wf: "wf_list L ns" and run: "list_get_next L = Some (p, L')"
  shows "wf_list L' ns"
proof (cases "curr L = NULL")
  case True
  then show ?thesis using run wf by (simp add: list_get_next_null)
next
  case False
  then have "curr L \<in> fst ` set ns" using wf_listD(5) [OF wf] by simp
  from split_node [OF this] obtain xs y ys where ns: "ns = xs @ (curr L, y) # ys" by blast
  from list_get_next_ok [OF wf [unfolded ns] refl] run show ?thesis
    unfolding ns by auto
qed

lemma list_get_prev_wf:
  assumes wf: "wf_list L ns" and run: "list_get_prev L = Some (p, L')"
  shows "wf_list L' ns"
proof (cases "curr L = NULL")
  case True
  then show ?thesis using run wf by (simp add: list_get_prev_null)
next
  case False
  then have "curr L \<in> fst ` set ns" using wf_listD(5) [OF wf] by simp
  from split_node [OF this] obtain xs y ys where ns: "ns = xs @ (curr L, y) # ys" by blast
  from list_get_prev_ok [OF wf [unfolded ns] refl] run show ?thesis
    unfolding ns by auto
qed

lemma list_remove_wf:
  assumes wf: "wf_list L ns" and run: "list_remove L e = Some (p, L')"
  shows "\<exists>ns'. wf_list L' ns'"
proof (cases "e \<in> snd ` set ns")
  case False
  then show ?thesis using list_remove_absent [OF wf False] run wf by auto
next
  case True
  from split_first_occurrence [OF this] obtain xs t ys where
    ns: "ns = xs @ (t, e) # ys" and e: "e \<notin> snd ` set xs" by blast
  from list_remove_present [OF wf [unfolded ns] e] run show ?thesis by auto
qed

lemma list_remove_head_wf:
  assumes wf: "wf_list L ns" and run: "list_remove_head L = Some (p, L')"
  shows "\<exists>ns'. wf_list L' ns'"
proof (cases ns)
  case Nil
  then show ?thesis using list_remove_head_empty [of L] run wf by auto
next
  case (Cons fx ys)
  obtain f x where "fx = (f, x)" by (cases fx)
  with Cons list_remove_head_ok [of L f x ys] wf run show ?thesis by auto
qed

lemma list_remove_tail_wf:
  assumes wf: "wf_list L ns" and run: "list_remove_tail L = Some (p, L')"
  shows "\<exists>ns'. wf_list L' ns'"
proof (cases ns rule: rev_cases)
  case Nil
  then show ?thesis using list_remove_tail_empty [of L] run wf by auto
next
  case (snoc xs ly)
  obtain l y where "ly = (l, y)" by (cases ly)
  with snoc list_remove_tail_ok [of L xs l y] wf run show ?thesis by auto
qed

lemma reachable_wf: "reachable L \<Longrightarrow> \<exists>ns. wf_list L ns"
proof (induction rule: reachable.induct)
  case (by_create m a s r L)
  then show ?case using wf_list_create by blast
next
  case (by_add L e sz r rc L')
  then show ?case using list_add_wf by blast
next
  case (by_add_head L e sz r rc L')
  then show ?case using list_add_head_wf by blast
next
  case (by_add_tail L e sz r rc L')
  then show ?case using list_add_tail_wf by blast
next
  case (by_get_count L n L')
  then show ?case by (simp add: list_get_count_def)
next
  case (by_get_head L p L')
  then show ?case using list_get_head_ok by fastforce
next
  case (by_get_tail L p L')
  then show ?case using list_get_tail_ok by fastforce
next
  case (by_get_next L p L')
  then show ?case using list_get_next_wf by blast
next
  case (by_get_prev L p L')
  then show ?case using list_get_prev_wf by blast
next
  case (by_remove L e p L')
  then show ?case using list_remove_wf by blast
next
  case (by_remove_head L p L')
  then show ?case using list_remove_head_wf by blast
next
  case (by_remove_tail L p L')
  then show ?case using list_remove_tail_wf by blast
qed

lemma wf_empty_iff:
  assumes wf: "wf_list L ns"
  shows "first L = NULL \<longleftrightarrow> ns = []" "last_p L = NULL \<longleftrightarrow> ns = []" "count L = 0 \<longleftrightarrow> ns = []"
proof -
  show "first L = NULL \<longleftrightarrow> ns = []" using wf_listD(1) [OF wf] by (cases ns) auto
  show "last_p L = NULL \<longleftrightarrow> ns = []"
    using wf_listD(3) [OF wf] dlseg_live [OF wf_listD(1) [OF wf], of "fst (last ns)" "snd (last ns)"]
    by auto
  show "count L = 0 \<longleftrightarrow> ns = []" using wf_listD(4) [OF wf] by (auto simp: unat_eq_zero)
qed

lemma walk_dlseg: "dlseg (nodes L) pr p ns NULL \<Longrightarrow> walk L p n = Some (n + length ns)"
proof (induction ns arbitrary: pr p n)
  case Nil
  then show ?case by (subst walk.simps) simp
next
  case (Cons bx ns)
  obtain b x where bx: "bx = (b, x)" by (cases bx)
  from Cons.prems bx obtain nb where b: "p = b" "b \<noteq> NULL" "nodes L b = Some nb"
    "dlseg (nodes L) b (next nb) ns NULL"
    by (auto split: option.splits)
  have "walk L p n = walk L (next nb) (Suc n)"
    using b by (subst walk.simps) (simp add: get_next_def deref_def)
  then show ?case using Cons.IH [OF b(4), of "Suc n"] by simp
qed

lemma add_step:
  assumes wf: "wf_list L ns" and e: "e \<noteq> NULL"
    and ok: "\<And>r. alloc_ok L r \<Longrightarrow> \<exists>L' ns'. op r = Some (0, L') \<and> wf_list L' ns' \<and> length ns' = Suc (length ns)"
    and fail: "\<And>r. \<not> alloc_ok L r \<Longrightarrow> op r = Some (- 1, L)"
  shows "\<exists>a d L' ns'. do { (rc :: int, L') \<leftarrow> op r; Some (if rc = 0 then 1 else 0 :: nat, 0 :: nat, L') }
            = Some (a, d, L') \<and> wf_list L' ns' \<and> length ns' + d = length ns + a"
proof (cases "alloc_ok L r")
  case True
  from ok [OF True] obtain L' ns' where "op r = Some (0, L')" "wf_list L' ns'"
    "length ns' = Suc (length ns)" by blast
  then show ?thesis by (intro exI [of _ 1] exI [of _ 0] exI [of _ L'] exI [of _ ns']) simp
next
  case False
  from fail [OF False] wf show ?thesis
    by (intro exI [of _ 0] exI [of _ 0] exI [of _ L] exI [of _ ns]) simp
qed

lemma apply_call_step:
  assumes wf: "wf_list L ns" and c: "payload_given c"
  shows "\<exists>a d L' ns'. apply_call L c = Some (a, d, L') \<and> wf_list L' ns' \<and>
           length ns' + d = length ns + a"
proof (cases c)
  case (Add e sz r)
  then have e: "e \<noteq> NULL" using c by simp
  show ?thesis unfolding Add apply_call.simps
  proof (rule add_step [OF wf e])
    fix r assume "alloc_ok L r"
    from list_add_ok [OF wf e this, of sz] obtain L' where
      "list_add L e sz r = Some (0, L')" "wf_list L' (placed L e sz r ns)" by blast
    moreover have "length (placed L e sz r ns) = Suc (length ns)"
      by (simp add: placed_def split: option.splits)
         (metis length_append takeWhile_dropWhile_id)
    ultimately show "\<exists>L' ns'. list_add L e sz r = Some (0, L') \<and> wf_list L' ns' \<and>
        length ns' = Suc (length ns)" by blast
  next
    fix r assume "\<not> alloc_ok L r"
    then show "list_add L e sz r = Some (- 1, L)"
      using e by (simp add: list_add_def list_create_element_fail)
  qed
next
  case (Add_head e sz r)
  then have e: "e \<noteq> NULL" using c by simp
  show ?thesis unfolding Add_head apply_call.simps
  proof (rule add_step [OF wf e])
    fix r assume "alloc_ok L r"
    from list_add_head_ok [OF wf e this, of sz]
    show "\<exists>L' ns'. list_add_head L e sz r = Some (0, L') \<and> wf_list L' ns' \<and>
        length ns' = Suc (length ns)" by (meson length_Cons)
  next
    fix r assume "\<not> alloc_ok L r"
    then show "list_add_head L e sz r = Some (- 1, L)"
      using e by (simp add: list_add_head_def list_create_element_fail)
  qed
next
  case (Add_tail e sz r)
  then have e: "e \<noteq> NULL" using c by simp
  show ?thesis unfolding Add_tail apply_call.simps
  proof (rule add_step [OF wf e])
    fix r assume "alloc_ok L r"
    from list_add_tail_ok [OF wf e this, of sz]
    show "\<exists>L' ns'. list_add_tail L e sz r = Some (0, L') \<and> wf_list L' ns' \<and>
        length ns' = Suc (length ns)" by (meson length_append_singleton)
  next
    fix r assume "\<not> alloc_ok L r"
    then show "list_add_tail L e sz r = Some (- 1, L)"
      using e by (simp add: list_add_tail_def list_create_element_fail)
  qed
next
  case (Remove e)
  show ?thesis
  proof (cases "e \<in> snd ` set ns")
    case False
    have "list_remove_search L e (first L) = list_remove_search L e NULL"
      by (rule list_remove_search_skip [OF wf_listD(1) [OF wf] False])
    also have "\<dots> = Some NULL" by (subst list_remove_search.simps) simp
    finally show ?thesis using list_remove_absent [OF wf False] wf Remove
      by (intro exI [of _ 0] exI [of _ 0] exI [of _ L] exI [of _ ns]) simp
  next
    case True
    from split_first_occurrence [OF this] obtain xs t ys where
      ns: "ns = xs @ (t, e) # ys" and e: "e \<notin> snd ` set xs" by blast
    from list_remove_present [OF wf [unfolded ns] e] obtain L' where
      L': "list_remove L e = Some ((if ys = [] then NULL else fst (hd ys)), L')" "wf_list L' (xs @ ys)"
      by blast
    have "list_remove_search L e (first L) = Some t" "t \<noteq> NULL"
      using list_remove_search_found [OF wf [unfolded ns] e] wf_neighbours(3) [OF wf [unfolded ns]]
      by simp_all
    then show ?thesis using L' Remove ns
      by (intro exI [of _ 0] exI [of _ 1] exI [of _ L'] exI [of _ "xs @ ys"]) simp
  qed
next
  case Remove_head
  show ?thesis
  proof (cases ns)
    case Nil
    then show ?thesis using list_remove_head_empty [of L] wf wf_empty_iff(1) [OF wf] Remove_head
      by (intro exI [of _ 0] exI [of _ 0] exI [of _ L] exI [of _ ns]) simp
  next
    case (Cons fx ys)
    obtain f x where fx: "fx = (f, x)" by (cases fx)
    from list_remove_head_ok [OF wf [unfolded Cons fx]] obtain L' where
      "list_remove_head L = Some (x, L')" "wf_list L' ys" by blast
    then show ?thesis using wf_empty_iff(1) [OF wf] Cons Remove_head
      by (intro exI [of _ 0] exI [of _ 1] exI [of _ L'] exI [of _ ys]) simp
  qed
next
  case Remove_tail
  show ?thesis
  proof (cases ns rule: rev_cases)
    case Nil
    then show ?thesis using list_remove_tail_empty [of L] wf wf_empty_iff(2) [OF wf] Remove_tail
      by (intro exI [of _ 0] exI [of _ 0] exI [of _ L] exI [of _ ns]) simp
  next
    case (snoc xs ly)
    obtain l y where ly: "ly = (l, y)" by (cases ly)
    from list_remove_tail_ok [OF wf [unfolded snoc ly]] obtain L' where
      "list_remove_tail L = Some (y, L')" "wf_list L' xs" by blast
    then show ?thesis using wf_empty_iff(2) [OF wf] snoc Remove_tail
      by (intro exI [of _ 0] exI [of _ 1] exI [of _ L'] exI [of _ xs]) simp
  qed
qed

lemma run_steps:
  assumes "wf_list L ns" "\<forall>c \<in> set cs. payload_given c"
  shows "\<exists>a d L' ns'. run L cs = Some (a, d, L') \<and> wf_list L' ns' \<and>
           length ns' + d = length ns + a"
  using assms
proof (induction cs arbitrary: L ns)
  case Nil
  then show ?case by (intro exI [of _ 0] exI [of _ L] exI [of _ ns]) simp
next
  case (Cons c cs)
  from apply_call_step [OF Cons.prems(1), of c] Cons.prems(2) obtain a d L1 ns1 where
    1: "apply_call L c = Some (a, d, L1)" "wf_list L1 ns1" "length ns1 + d = length ns + a"
    by auto
  from Cons.IH [OF 1(2)] Cons.prems(2) obtain a' d' L2 ns2 where
    2: "run L1 cs = Some (a', d', L2)" "wf_list L2 ns2" "length ns2 + d' = length ns1 + a'"
    by auto
  show ?case using 1 2
    by (intro exI [of _ "a + a'"] exI [of _ "d + d'"] exI [of _ L2] exI [of _ ns2]) simp
qed

lemma add_is_add_tail:
  assumes wf: "wf_list L ns" and s: "sort_fn L = None"
  shows "list_add L e sz r = list_add_tail L e sz r"
proof (cases "e = NULL")
  case True
  then show ?thesis by (simp add: list_add_def list_add_tail_def list_create_element_assert)
next
  case e: False
  show ?thesis
  proof (cases "alloc_ok L r")
    case False
    then show ?thesis using e by (simp add: list_add_def list_add_tail_def list_create_element_fail)
  next
    case True
    have "first L = NULL \<longleftrightarrow> last_p L = NULL"
      using wf_empty_iff(1,2) [OF wf] by simp
    then show ?thesis using e True s
      by (simp add: list_add_def list_add_tail_def list_create_element_ok)
  qed
qed

section \<open>The claims\<close>

subsection \<open>Example states are states of the library\<close>

lemmas model_defs = list_create_element_def malloc_def fresh_def set_elem_def set_next_def
  set_prev_def deref_def get_elem_def get_next_def get_prev_def free_node_def free_block_def

lemma ex_new_built: "list_create ex_mem False None 0x1000 = Some ex_new"
  by (simp add: list_create_def ex_mem_def ex_new_def malloc_def fresh_def)

lemma ex_one_built: "list_add_tail ex_new 0x100 8 (0x10, 0) = Some (0, ex_one)"
  by (simp add: list_add_tail_def ex_new_def ex_one_def model_defs)

lemma ex_two_built: "list_add_tail ex_one 0x200 8 (0x20, 0) = Some (0, ex_two)"
  by (simp add: list_add_tail_def ex_one_def ex_two_def model_defs fun_eq_iff)

lemma ex_own_built: "list_create ex_mem True None 0x1000 = Some ex_own"
  by (simp add: list_create_def ex_mem_def ex_own_def malloc_def fresh_def)

lemma ex_two_wf: "wf_list ex_two [(0x10, 0x100), (0x20, 0x200)]"
  by (simp add: wf_list_def wf_items_def ex_two_def)

lemma ex_own_one_built: "list_add_tail ex_own 0x300 8 (0x10, 0x50) = Some (0, ex_own_one)"
  by (simp add: list_add_tail_def ex_own_def ex_own_one_def model_defs)

lemma ex_own_one_wf: "wf_list ex_own_one [(0x10, 0x50)]"
  by (simp add: wf_list_def wf_items_def ex_own_one_def)

lemma ex_sorted_wf: "wf_list ex_sorted [(0x10, 0x100), (0x20, 0x200)]"
  by (simp add: wf_list_def wf_items_def ex_sorted_def)

lemma ex_sorted_built:
  "do {
     L0 \<leftarrow> list_create ex_letters False (Some by_first_byte) 0x1000;
     (r1, L1) \<leftarrow> list_add L0 0x100 8 (0x10, NULL);
     (r2, L2) \<leftarrow> list_add L1 0x200 8 (0x20, NULL);
     Some L2
   } = Some ex_sorted"
  by (simp add: list_create_def list_add_def list_add_loop.simps ex_letters_def ex_sorted_def
        by_first_byte_def list_state.truncate_def model_defs fun_eq_iff)

text \<open>
  The example program of the repository, on these payloads: inserted in the order b, c,
  a, they are read back from the head as a, b, c.
\<close>

lemma ex_sorted_program:
  "do {
     L0 \<leftarrow> list_create ex_letters False (Some by_first_byte) 0x1000;
     (r1, L1) \<leftarrow> list_add L0 0x300 8 (0x10, NULL);
     (r2, L2) \<leftarrow> list_add L1 0x200 8 (0x20, NULL);
     (r3, L3) \<leftarrow> list_add L2 0x100 8 (0x30, NULL);
     (p1, L4) \<leftarrow> list_get_head L3;
     (p2, L5) \<leftarrow> list_get_next L4;
     (p3, L6) \<leftarrow> list_get_next L5;
     (p4, L7) \<leftarrow> list_get_next L6;
     Some (map (bytes L7) [p1, p2, p3], p4)
   } = Some ([0x61, 0x62, 0x63], NULL)"
  by (simp add: list_create_def list_add_def list_add_loop.simps ex_letters_def
        list_get_head_def list_get_next_def get_element_def
        by_first_byte_def list_state.truncate_def model_defs)

lemma ex_adds:
  "list_add ex_new 0x100 8 (0x10, NULL) = Some (0, ex_one)"
  "list_add ex_one 0x200 8 (0x20, NULL) = Some (0, ex_two)"
  "list_add ex_two 0x300 8 (0x30, NULL) = Some (0, ex_three)"
  by (simp_all add: list_add_def ex_new_def ex_one_def ex_two_def ex_three_def model_defs fun_eq_iff)

lemma ex_iteration:
  "list_get_head ex_three = Some (0x100, ex_three)"
  "list_get_next ex_three = Some (0x200, ex_three\<lparr>curr := 0x20\<rparr>)"
  "list_get_next (ex_three\<lparr>curr := 0x20\<rparr>) = Some (0x300, ex_three\<lparr>curr := 0x30\<rparr>)"
  "list_get_next (ex_three\<lparr>curr := 0x30\<rparr>) = Some (NULL, ex_three\<lparr>curr := NULL\<rparr>)"
  by (simp_all add: list_get_head_def list_get_next_def get_element_def ex_three_def model_defs)

lemma ex_two_reachable: "reachable ex_two"
  by (rule by_add_tail [OF by_add_tail [OF by_create [OF ex_new_built] ex_one_built] ex_two_built])

lemma ex_calls_run:
  "map_option fst (run ex_new ex_calls) = Some 3"
  "map_option (fst \<circ> snd) (run ex_new ex_calls) = Some 2"
  by (simp_all add: ex_calls_def ex_new_def list_add_def list_add_head_def list_add_tail_def
     list_remove_def list_remove_tail_def list_remove_search.simps model_defs Let_def)

subsection \<open>What \<^verbatim>\<open>list_remove\<close> returns\<close>

text \<open>
  Claim C1 says that \<^verbatim>\<open>list_remove\<close> returns the payload of the node that followed the
  removed one. The code returns \<^verbatim>\<open>tmp->next\<close> itself. In the two-element example, removing
  the payload \<open>0x100\<close> returns \<open>0x20\<close>, the address of the second node, and the payload
  stored in that node is \<open>0x200\<close>.
\<close>

theorem remove_returns_node_pointer:
  "map_option fst (list_remove ex_two 0x100) = Some 0x20 \<and> get_elem ex_two 0x20 = Some 0x200"
  by (simp add: list_remove_def list_remove_search.simps ex_two_def model_defs)

subsection \<open>Owned payloads on removal\<close>

text \<open>
  Claim C2 says that in owning mode each of the three removals frees the payload copy of
  the node it removes. \<^verbatim>\<open>list_remove_head\<close> does not: on the owning list with one
  element it returns the copy at \<open>0x50\<close>, and the block at \<open>0x50\<close> is still live after
  the call.
\<close>

theorem remove_head_keeps_payload_block:
  "alloc ex_own_one \<and> get_elem ex_own_one (first ex_own_one) = Some 0x50 \<and>
   map_option fst (list_remove_head ex_own_one) = Some 0x50 \<and>
   map_option (dom \<circ> blocks \<circ> snd) (list_remove_head ex_own_one) = Some {0x50}"
  by (simp add: list_remove_head_def ex_own_one_def model_defs)

text \<open>
  Claim C2, amended. In a well-formed list in owning mode: \<^verbatim>\<open>list_remove(list, e)\<close>, for
  the payload copy \<open>e\<close> of a node, frees that block (it was live before the call and is
  not after it, no other block changes) and the node; \<^verbatim>\<open>list_remove_head\<close> and
  \<^verbatim>\<open>list_remove_tail\<close> free the node only: they return the payload copy, and it is still
  a live block after the call.
\<close>

theorem owned_payload_on_removal:
  assumes wf: "wf_list L ns" and own: "alloc L"
  shows "(\<forall>xs t e ys. ns = xs @ (t, e) # ys \<and> e \<notin> snd ` set xs \<longrightarrow>
            e \<in> dom (blocks L) \<and>
            (\<exists>ret L'. list_remove L e = Some (ret, L') \<and>
               blocks L' = (blocks L)(e := None) \<and> t \<notin> dom (nodes L'))) \<and>
         (\<forall>f x ys. ns = (f, x) # ys \<longrightarrow>
            (\<exists>L'. list_remove_head L = Some (x, L') \<and>
               blocks L' = blocks L \<and> x \<in> dom (blocks L') \<and> f \<notin> dom (nodes L'))) \<and>
         (\<forall>xs l y. ns = xs @ [(l, y)] \<longrightarrow>
            (\<exists>L'. list_remove_tail L = Some (y, L') \<and>
               blocks L' = blocks L \<and> y \<in> dom (blocks L') \<and> l \<notin> dom (nodes L')))"
proof (intro conjI allI impI)
  fix xs t e ys
  assume a: "ns = xs @ (t, e) # ys \<and> e \<notin> snd ` set xs"
  show "e \<in> dom (blocks L)" using wf_listD(8) [OF wf own] a by auto
  from list_remove_present [OF wf [unfolded conjunct1 [OF a]] conjunct2 [OF a]] own
  show "\<exists>ret L'. list_remove L e = Some (ret, L') \<and>
               blocks L' = (blocks L)(e := None) \<and> t \<notin> dom (nodes L')"
    by (auto simp: domIff)
next
  fix f x ys
  assume a: "ns = (f, x) # ys"
  have "x \<in> dom (blocks L)" using wf_listD(8) [OF wf own] a by auto
  with list_remove_head_ok [OF wf [unfolded a]]
  show "\<exists>L'. list_remove_head L = Some (x, L') \<and>
               blocks L' = blocks L \<and> x \<in> dom (blocks L') \<and> f \<notin> dom (nodes L')"
    by (auto simp: domIff)
next
  fix xs l y
  assume a: "ns = xs @ [(l, y)]"
  have "y \<in> dom (blocks L)" using wf_listD(8) [OF wf own] a by auto
  with list_remove_tail_ok [OF wf [unfolded a]]
  show "\<exists>L'. list_remove_tail L = Some (y, L') \<and>
               blocks L' = blocks L \<and> y \<in> dom (blocks L') \<and> l \<notin> dom (nodes L')"
    by (auto simp: domIff)
qed

theorem owned_payload_on_removal_witness:
  "wf_list ex_own_one [(0x10, 0x50)] \<and> alloc ex_own_one \<and>
   0x50 \<in> dom (blocks ex_own_one) \<and>
   (\<exists>ret L'. list_remove ex_own_one 0x50 = Some (ret, L') \<and>
      blocks L' = (blocks ex_own_one)(0x50 := None) \<and> 0x10 \<notin> dom (nodes L')) \<and>
   (\<exists>L'. list_remove_head ex_own_one = Some (0x50, L') \<and>
      blocks L' = blocks ex_own_one \<and> 0x50 \<in> dom (blocks L') \<and> 0x10 \<notin> dom (nodes L')) \<and>
   (\<exists>L'. list_remove_tail ex_own_one = Some (0x50, L') \<and>
      blocks L' = blocks ex_own_one \<and> 0x50 \<in> dom (blocks L') \<and> 0x10 \<notin> dom (nodes L'))"
proof -
  have own: "alloc ex_own_one" by (simp add: ex_own_one_def)
  note t = owned_payload_on_removal [OF ex_own_one_wf own]
  from t have 1: "0x50 \<in> dom (blocks ex_own_one) \<and>
   (\<exists>ret L'. list_remove ex_own_one 0x50 = Some (ret, L') \<and>
      blocks L' = (blocks ex_own_one)(0x50 := None) \<and> 0x10 \<notin> dom (nodes L'))"
    by (elim conjE allE [of _ "[]"] allE [of _ "0x10"] allE [of _ "0x50"]) simp
  from t have 2: "\<exists>L'. list_remove_head ex_own_one = Some (0x50, L') \<and>
      blocks L' = blocks ex_own_one \<and> 0x50 \<in> dom (blocks L') \<and> 0x10 \<notin> dom (nodes L')"
    by (elim conjE allE [of _ "[]"] allE [of _ "0x10"] allE [of _ "0x50"]) simp
  from t have 3: "\<exists>L'. list_remove_tail ex_own_one = Some (0x50, L') \<and>
      blocks L' = blocks ex_own_one \<and> 0x50 \<in> dom (blocks L') \<and> 0x10 \<notin> dom (nodes L')"
    by (elim conjE allE [of _ "[]"] allE [of _ "0x10"] allE [of _ "0x50"]) simp
  from 1 2 3 ex_own_one_wf own show ?thesis by blast
qed

subsection \<open>Sorted insertion\<close>

text \<open>
  Claim C3. In a well-formed list with a callback \<open>f\<close>, let the chain be \<open>xs @ ys\<close> where
  the callback, called with the payload of the existing node and the argument \<open>e\<close> of
  \<^verbatim>\<open>list_add\<close>, answers true on every node of \<open>xs\<close>, and \<open>ys\<close> is empty or the callback
  answers false on its first node. Then a \<^verbatim>\<open>list_add\<close> whose allocations succeed returns 0
  and the chain afterwards is \<open>xs\<close>, the new node, \<open>ys\<close>: the new node stands immediately
  before the first node on which the callback answered false, and at the end when there
  is none.
\<close>

theorem sorted_insert_position:
  assumes wf: "wf_list L (xs @ ys)"
    and s: "sort_fn L = Some f" and e: "e \<noteq> NULL" and ok: "alloc_ok L r"
    and before: "\<forall>(b, x) \<in> set xs. f (list_state.truncate (created L e sz r)) x e"
    and stop: "ys = [] \<or> \<not> f (list_state.truncate (created L e sz r)) (snd (hd ys)) e"
  shows "\<exists>L'. list_add L e sz r = Some (0, L') \<and>
           wf_list L' (xs @ (fst r, stored L e r) # ys)"
proof -
  let ?P = "keeps_before L e sz r f"
  have all: "\<And>x. x \<in> set xs \<Longrightarrow> ?P x"
    using before by (auto simp: keeps_before_def)
  have "takeWhile ?P ys = [] \<and> dropWhile ?P ys = ys"
    using stop by (cases ys) (auto simp: keeps_before_def)
  then have "takeWhile ?P (xs @ ys) = xs" "dropWhile ?P (xs @ ys) = ys"
    using all by (simp_all add: takeWhile_append2 dropWhile_append2)
  then have "placed L e sz r (xs @ ys) = xs @ (fst r, stored L e r) # ys"
    using s by (simp add: placed_def)
  then show ?thesis
    using list_add_ok [OF wf e ok, of sz] by auto
qed

theorem sorted_insert_position_witness:
  "wf_list ex_sorted ([(0x10, 0x100)] @ [(0x20, 0x200)]) \<and>
   sort_fn ex_sorted = Some by_first_byte \<and> alloc_ok ex_sorted (0x30, NULL) \<and>
   by_first_byte (list_state.truncate (created ex_sorted 0x300 8 (0x30, NULL))) 0x100 0x300 \<and>
   \<not> by_first_byte (list_state.truncate (created ex_sorted 0x300 8 (0x30, NULL))) 0x200 0x300 \<and>
   (\<exists>L'. list_add ex_sorted 0x300 8 (0x30, NULL) = Some (0, L') \<and>
      wf_list L' [(0x10, 0x100), (0x30, 0x300), (0x20, 0x200)])"
proof -
  have wf: "wf_list ex_sorted ([(0x10, 0x100)] @ [(0x20, 0x200)])"
    using ex_sorted_wf by simp
  have s: "sort_fn ex_sorted = Some by_first_byte" by (simp add: ex_sorted_def)
  have ok: "alloc_ok ex_sorted (0x30, NULL)"
    by (simp add: alloc_ok_def fresh_def ex_sorted_def)
  have c: "by_first_byte (list_state.truncate (created ex_sorted 0x300 8 (0x30, NULL))) 0x100 0x300"
    "\<not> by_first_byte (list_state.truncate (created ex_sorted 0x300 8 (0x30, NULL))) 0x200 0x300"
    by (simp_all add: by_first_byte_def created_def ex_sorted_def list_state.truncate_def)
  have st: "stored ex_sorted 0x300 (0x30, NULL) = 0x300"
    by (simp add: stored_def ex_sorted_def)
  show ?thesis
    using sorted_insert_position [OF wf s _ ok, of "0x300" 8] wf s ok c st by simp
qed

subsection \<open>Empty means empty\<close>

text \<open>
  Claim C4. In every state reached from \<^verbatim>\<open>list_create\<close> by calls of the public functions,
  \<open>first\<close> is \<^verbatim>\<open>NULL\<close> exactly when \<open>last\<close> is \<^verbatim>\<open>NULL\<close>, and exactly when \<open>count\<close> is 0.
\<close>

theorem empty_iff_invariant:
  assumes "reachable L"
  shows "(first L = NULL \<longleftrightarrow> last_p L = NULL) \<and> (last_p L = NULL \<longleftrightarrow> count L = 0)"
proof -
  from reachable_wf [OF assms] obtain ns where "wf_list L ns" ..
  from wf_empty_iff [OF this] show ?thesis by simp
qed

theorem empty_iff_invariant_witness:
  "reachable ex_two \<and>
   (first ex_two = NULL \<longleftrightarrow> last_p ex_two = NULL) \<and> (last_p ex_two = NULL \<longleftrightarrow> count ex_two = 0)"
  using empty_iff_invariant [OF ex_two_reachable] ex_two_reachable by simp

subsection \<open>The count\<close>

text \<open>
  Claim C5. Every sequence of calls of \<^verbatim>\<open>list_add\<close>, \<^verbatim>\<open>list_add_head\<close>, \<^verbatim>\<open>list_add_tail\<close>,
  \<^verbatim>\<open>list_remove\<close>, \<^verbatim>\<open>list_remove_head\<close> and \<^verbatim>\<open>list_remove_tail\<close> on a list that
  \<^verbatim>\<open>list_create\<close> returned, with payload arguments that are not \<^verbatim>\<open>NULL\<close>, runs to its end;
  afterwards \<^verbatim>\<open>list_get_count\<close> returns, leaves the state as it is, and the number \<open>n\<close> it
  returns is the number of successful adds minus the number of successful removes; and
  walking \<^verbatim>\<open>next\<close> from \<open>first\<close> until \<^verbatim>\<open>NULL\<close> visits exactly \<open>n\<close> nodes.
\<close>

theorem count_invariant:
  assumes "list_create m a s r0 = Some L0" and "\<forall>c \<in> set cs. payload_given c"
  shows "\<exists>adds removes L n. run L0 cs = Some (adds, removes, L) \<and> removes \<le> adds \<and>
           list_get_count L = Some (n, L) \<and> unat n = adds - removes \<and>
           walk L (first L) 0 = Some (unat n)"
proof -
  from run_steps [OF wf_list_create [OF assms(1)] assms(2)] obtain a d L ns where
    r: "run L0 cs = Some (a, d, L)" "wf_list L ns" "length ns + d = a"
    by auto
  have "list_get_count L = Some (count L, L)" by (simp add: list_get_count_def)
  moreover have "unat (count L) = length ns" by (rule wf_listD(4) [OF r(2)])
  moreover have "walk L (first L) 0 = Some (0 + length ns)"
    by (rule walk_dlseg [OF wf_listD(1) [OF r(2)]])
  ultimately show ?thesis using r(1,3)
    by (intro exI [of _ a] exI [of _ d] exI [of _ L] exI [of _ "count L"]) simp
qed

text \<open>
  The witness runs the example sequence: three adds and two removes succeed, and
  \<^verbatim>\<open>list_get_count\<close> returns 1.
\<close>

theorem count_invariant_witness:
  "list_create ex_mem False None 0x1000 = Some ex_new \<and> list_all payload_given ex_calls \<and>
   (\<exists>L. run ex_new ex_calls = Some (3, 2, L) \<and> list_get_count L = Some (1, L) \<and>
      walk L (first L) 0 = Some 1)"
proof -
  have p: "\<forall>c \<in> set ex_calls. payload_given c" by (simp add: ex_calls_def)
  from count_invariant [OF ex_new_built p] obtain adds removes L n where
    r: "run ex_new ex_calls = Some (adds, removes, L)" "list_get_count L = Some (n, L)"
      "unat n = adds - removes" "walk L (first L) 0 = Some (unat n)" by blast
  from r(1) ex_calls_run have ar: "adds = 3" "removes = 2" by simp_all
  with r(3) have "unat n = unat (1 :: size_t)" by simp
  then have "n = 1" by (simp only: word_unat_eq_iff [symmetric])
  with r ar ex_new_built p show ?thesis by (auto simp: list_all_iff)
qed

subsection \<open>Allocation failure\<close>

text \<open>
  Claim C6. For every list and every call of \<^verbatim>\<open>list_add\<close>, \<^verbatim>\<open>list_add_head\<close> or
  \<^verbatim>\<open>list_add_tail\<close> with a payload that is not \<^verbatim>\<open>NULL\<close>: if the allocation of the node fails,
  or in owning mode the allocation of the payload copy fails, the call returns -1 and the
  state after the call is the state before it.
\<close>

theorem alloc_failure_no_mutation:
  assumes "e \<noteq> NULL"
    and "malloc L (fst r) = NULL \<or>
         (alloc L \<and>
          malloc (L\<lparr>nodes := (nodes L)(fst r \<mapsto> \<lparr>prev = NULL, next = NULL, elem = NULL\<rparr>)\<rparr>) (snd r) = NULL)"
  shows "list_add L e sz r = Some (- 1, L) \<and>
         list_add_head L e sz r = Some (- 1, L) \<and>
         list_add_tail L e sz r = Some (- 1, L)"
proof -
  have "\<not> alloc_ok L r"
    using assms(2) by (auto simp: alloc_ok_def malloc_def fresh_def split: if_splits)
  then have "list_create_element L e sz r = Some (NULL, L)"
    using assms(1) by (rule list_create_element_fail [rotated])
  then show ?thesis
    using assms(1) by (simp add: list_add_def list_add_head_def list_add_tail_def)
qed

text \<open>
  The witness is the empty owning list: the node at \<open>0x10\<close> is granted, the block for the
  copy is refused.
\<close>

theorem alloc_failure_no_mutation_witness:
  "(0x300 :: ptr) \<noteq> NULL \<and>
   (alloc ex_own \<and>
    malloc (ex_own\<lparr>nodes := (nodes ex_own)(0x10 \<mapsto> \<lparr>prev = NULL, next = NULL, elem = NULL\<rparr>)\<rparr>) NULL = NULL) \<and>
   list_add ex_own 0x300 8 (0x10, NULL) = Some (- 1, ex_own) \<and>
   list_add_head ex_own 0x300 8 (0x10, NULL) = Some (- 1, ex_own) \<and>
   list_add_tail ex_own 0x300 8 (0x10, NULL) = Some (- 1, ex_own)"
  using alloc_failure_no_mutation [of "0x300" ex_own "(0x10, NULL)" 8]
  by (simp add: malloc_def fresh_def ex_own_def)

subsection \<open>Without a callback\<close>

text \<open>
  Claim C7. In a well-formed list without callback, \<^verbatim>\<open>list_add\<close> and \<^verbatim>\<open>list_add_tail\<close> give
  the same result on the same arguments; and three calls of \<^verbatim>\<open>list_add\<close> on an empty
  list, followed by \<^verbatim>\<open>list_get_head\<close> and three calls of \<^verbatim>\<open>list_get_next\<close>, return the three
  payloads in the order of insertion and then \<^verbatim>\<open>NULL\<close>.
\<close>

theorem add_without_callback_appends:
  "(\<forall>L ns e sz r. wf_list L ns \<and> sort_fn L = None \<longrightarrow>
      list_add L e sz r = list_add_tail L e sz r) \<and>
   do {
     (r1, L1) \<leftarrow> list_add ex_new 0x100 8 (0x10, NULL);
     (r2, L2) \<leftarrow> list_add L1 0x200 8 (0x20, NULL);
     (r3, L3) \<leftarrow> list_add L2 0x300 8 (0x30, NULL);
     (p1, L4) \<leftarrow> list_get_head L3;
     (p2, L5) \<leftarrow> list_get_next L4;
     (p3, L6) \<leftarrow> list_get_next L5;
     (p4, L7) \<leftarrow> list_get_next L6;
     Some ([r1, r2, r3], [p1, p2, p3, p4])
   } = Some ([0, 0, 0], [0x100, 0x200, 0x300, NULL])"
proof (intro conjI allI impI)
  fix L ns e sz r
  assume "wf_list L ns \<and> sort_fn L = None"
  then show "list_add L e sz r = list_add_tail L e sz r"
    using add_is_add_tail by blast
next
  show "do {
     (r1, L1) \<leftarrow> list_add ex_new 0x100 8 (0x10, NULL);
     (r2, L2) \<leftarrow> list_add L1 0x200 8 (0x20, NULL);
     (r3, L3) \<leftarrow> list_add L2 0x300 8 (0x30, NULL);
     (p1, L4) \<leftarrow> list_get_head L3;
     (p2, L5) \<leftarrow> list_get_next L4;
     (p3, L6) \<leftarrow> list_get_next L5;
     (p4, L7) \<leftarrow> list_get_next L6;
     Some ([r1, r2, r3], [p1, p2, p3, p4])
   } = Some ([0, 0, 0], [0x100, 0x200, 0x300, NULL])"
    by (simp add: ex_adds ex_iteration)
qed

theorem add_without_callback_appends_witness:
  "wf_list ex_two [(0x10, 0x100), (0x20, 0x200)] \<and> sort_fn ex_two = None \<and>
   list_add ex_two 0x300 8 (0x30, NULL) = list_add_tail ex_two 0x300 8 (0x30, NULL) \<and>
   list_add_tail ex_two 0x300 8 (0x30, NULL) = Some (0, ex_three)"
proof -
  have s: "sort_fn ex_two = None" by (simp add: ex_two_def)
  from add_without_callback_appends
  have "list_add ex_two 0x300 8 (0x30, NULL) = list_add_tail ex_two 0x300 8 (0x30, NULL)"
    using ex_two_wf s by blast
  then show ?thesis using ex_two_wf s ex_adds(3) by simp
qed

subsection \<open>Removal by reference\<close>


text \<open>
  Claim C8. In a well-formed list, \<^verbatim>\<open>list_remove(list, e)\<close> with a pointer \<open>e\<close> that is the
  payload pointer of no node returns \<^verbatim>\<open>NULL\<close> and leaves the whole state as it was; with a
  pointer that is the payload pointer of some node it returns and \<open>count\<close> is smaller by
  exactly one (without wrapping).
\<close>

theorem remove_by_reference:
  assumes wf: "wf_list L ns"
  shows "(e \<notin> snd ` set ns \<longrightarrow> list_remove L e = Some (NULL, L)) \<and>
         (e \<in> snd ` set ns \<longrightarrow>
            (\<exists>ret L'. list_remove L e = Some (ret, L') \<and> count L' = count L - 1 \<and>
               unat (count L') + 1 = unat (count L)))"
proof (intro conjI impI)
  assume "e \<notin> snd ` set ns"
  then show "list_remove L e = Some (NULL, L)" by (rule list_remove_absent [OF wf])
next
  assume "e \<in> snd ` set ns"
  from split_first_occurrence [OF this] obtain xs t ys where
    ns: "ns = xs @ (t, e) # ys" and e: "e \<notin> snd ` set xs" by blast
  from list_remove_present [OF wf [unfolded ns] e] obtain L' where
    L': "list_remove L e = Some ((if ys = [] then NULL else fst (hd ys)), L')"
      "wf_list L' (xs @ ys)" "count L' = count L - 1"
    by blast
  have "unat (count L') + 1 = unat (count L)"
    using wf_listD(4) [OF wf] wf_listD(4) [OF L'(2)] ns by simp
  then show "\<exists>ret L'. list_remove L e = Some (ret, L') \<and> count L' = count L - 1 \<and>
               unat (count L') + 1 = unat (count L)"
    using L' by blast
qed

theorem remove_by_reference_witness:
  "wf_list ex_two [(0x10, 0x100), (0x20, 0x200)] \<and>
   0x300 \<notin> snd ` set [(0x10, 0x100), (0x20, 0x200 :: ptr)] \<and>
   list_remove ex_two 0x300 = Some (NULL, ex_two) \<and>
   0x200 \<in> snd ` set [(0x10, 0x100), (0x20, 0x200 :: ptr)] \<and>
   (\<exists>ret L'. list_remove ex_two 0x200 = Some (ret, L') \<and> count L' = count ex_two - 1 \<and>
      unat (count L') + 1 = unat (count ex_two))"
  using remove_by_reference [OF ex_two_wf, of "0x300"] remove_by_reference [OF ex_two_wf, of "0x200"]
    ex_two_wf
  by simp

subsection \<open>The empty list\<close>

text \<open>
  Claim C9. On the list that \<^verbatim>\<open>list_create\<close> returns, each of \<^verbatim>\<open>list_get_head\<close>,
  \<^verbatim>\<open>list_get_tail\<close>, \<^verbatim>\<open>list_get_next\<close>, \<^verbatim>\<open>list_get_prev\<close>, \<^verbatim>\<open>list_remove_head\<close> and
  \<^verbatim>\<open>list_remove_tail\<close> returns \<^verbatim>\<open>NULL\<close> and leaves the state, whose \<open>count\<close> is 0, unchanged.
\<close>

theorem empty_list_boundary:
  assumes "list_create m a s r = Some L"
  shows "list_get_head L = Some (NULL, L) \<and> list_get_tail L = Some (NULL, L) \<and>
         list_get_next L = Some (NULL, L) \<and> list_get_prev L = Some (NULL, L) \<and>
         list_remove_head L = Some (NULL, L) \<and> list_remove_tail L = Some (NULL, L) \<and>
         count L = 0"
proof -
  have wf: "wf_list L []" by (rule wf_list_create [OF assms])
  note z = wf_list_empty [OF wf]
  have "L\<lparr>curr := first L\<rparr> = L" "L\<lparr>curr := last_p L\<rparr> = L" using z by simp_all
  then show ?thesis
    using list_get_head_ok(1) [OF wf] list_get_tail_ok(1) [OF wf] z
      list_get_next_null [of L] list_get_prev_null [of L]
      list_remove_head_empty [OF wf] list_remove_tail_empty [OF wf]
    by simp
qed

theorem empty_list_boundary_witness:
  "list_create ex_mem False None 0x1000 = Some ex_new \<and>
   list_get_head ex_new = Some (NULL, ex_new) \<and> list_get_tail ex_new = Some (NULL, ex_new) \<and>
   list_get_next ex_new = Some (NULL, ex_new) \<and> list_get_prev ex_new = Some (NULL, ex_new) \<and>
   list_remove_head ex_new = Some (NULL, ex_new) \<and> list_remove_tail ex_new = Some (NULL, ex_new) \<and>
   count ex_new = 0"
  using empty_list_boundary [OF ex_new_built] ex_new_built by simp

subsection \<open>Running off the end\<close>

text \<open>
  Claim C10. In a well-formed list that is not empty: when the cursor is at the last node,
  \<^verbatim>\<open>list_get_next\<close> returns \<^verbatim>\<open>NULL\<close> and leaves the cursor \<^verbatim>\<open>NULL\<close>, and a \<^verbatim>\<open>list_get_prev\<close>
  called after it returns \<^verbatim>\<open>NULL\<close> as well, the cursor staying \<^verbatim>\<open>NULL\<close>; the same holds at
  the first node with the two functions exchanged.
\<close>

theorem run_off_the_end:
  assumes wf: "wf_list L ns" and ne: "ns \<noteq> []"
  shows "(curr L = last_p L \<longrightarrow>
           list_get_next L = Some (NULL, L\<lparr>curr := NULL\<rparr>) \<and>
           list_get_prev (L\<lparr>curr := NULL\<rparr>) = Some (NULL, L\<lparr>curr := NULL\<rparr>)) \<and>
         (curr L = first L \<longrightarrow>
           list_get_prev L = Some (NULL, L\<lparr>curr := NULL\<rparr>) \<and>
           list_get_next (L\<lparr>curr := NULL\<rparr>) = Some (NULL, L\<lparr>curr := NULL\<rparr>))"
proof -
  from ne obtain xs l y where ns: "ns = xs @ (l, y) # []"
    by (metis rev_exhaust surj_pair)
  have l: "last_p L = l" using wf_listD(3) [OF wf] ns by simp
  have 1: "curr L = last_p L \<longrightarrow>
           list_get_next L = Some (NULL, L\<lparr>curr := NULL\<rparr>) \<and>
           list_get_prev (L\<lparr>curr := NULL\<rparr>) = Some (NULL, L\<lparr>curr := NULL\<rparr>)"
    using list_get_next_ok(1) [OF wf [unfolded ns]] l
      list_get_prev_null [of "L\<lparr>curr := NULL\<rparr>"] by simp
  from ne obtain f x ys where ns': "ns = [] @ (f, x) # ys"
    by (cases ns) auto
  have f: "first L = f" using wf_first [OF wf] ns' by simp
  have 2: "curr L = first L \<longrightarrow>
           list_get_prev L = Some (NULL, L\<lparr>curr := NULL\<rparr>) \<and>
           list_get_next (L\<lparr>curr := NULL\<rparr>) = Some (NULL, L\<lparr>curr := NULL\<rparr>)"
    using list_get_prev_ok(1) [OF wf [unfolded ns']] f
      list_get_next_null [of "L\<lparr>curr := NULL\<rparr>"] by simp
  from 1 2 show ?thesis by blast
qed

text \<open>
  The witness puts the cursor of the two-element list on its last node (by
  \<^verbatim>\<open>list_get_tail\<close>) and on its first node.
\<close>

theorem run_off_the_end_witness:
  "wf_list (ex_two\<lparr>curr := 0x20\<rparr>) [(0x10, 0x100), (0x20, 0x200)] \<and>
   curr (ex_two\<lparr>curr := 0x20\<rparr>) = last_p (ex_two\<lparr>curr := 0x20\<rparr>) \<and>
   list_get_next (ex_two\<lparr>curr := 0x20\<rparr>) = Some (NULL, ex_two\<lparr>curr := NULL\<rparr>) \<and>
   list_get_prev (ex_two\<lparr>curr := NULL\<rparr>) = Some (NULL, ex_two\<lparr>curr := NULL\<rparr>) \<and>
   curr ex_two = first ex_two \<and>
   list_get_prev ex_two = Some (NULL, ex_two\<lparr>curr := NULL\<rparr>) \<and>
   list_get_next (ex_two\<lparr>curr := NULL\<rparr>) = Some (NULL, ex_two\<lparr>curr := NULL\<rparr>)"
proof -
  have wf: "wf_list (ex_two\<lparr>curr := 0x20\<rparr>) [(0x10, 0x100), (0x20, 0x200)]"
    by (rule wf_list_curr [OF ex_two_wf]) simp
  have c: "curr (ex_two\<lparr>curr := 0x20\<rparr>) = last_p (ex_two\<lparr>curr := 0x20\<rparr>)"
    "curr ex_two = first ex_two"
    by (simp_all add: ex_two_def)
  show ?thesis
    using run_off_the_end [OF wf] run_off_the_end [OF ex_two_wf] wf c by simp
qed

end
